theory Spec2Isabelle
  imports Main "HOL-Library.AList"
begin

section \<open>JavaScript values and the object store\<close>

text \<open>
  The values the router and the BigQuery methods handle. Objects are references into a
  store, as in JavaScript, so that a claim about who sees a mutation can be stated.
  Numbers are restricted to the integers: the descriptor's \<open>maxResults\<close> is a count.
  A function value is named by a number.
\<close>

type_synonym addr = nat

datatype jsval =
    JUndefined
  | JNull
  | JBool bool
  | JNumber int
  | JString string
  | JFunction nat
  | JObject addr

type_synonym props = "(string \<times> jsval) list"

text \<open>The store holds the own properties of every allocated object; an address is an index.\<close>

type_synonym store = "props list"

fun truthy :: "jsval \<Rightarrow> bool" where
  "truthy JUndefined = False"
| "truthy JNull = False"
| "truthy (JBool b) = b"
| "truthy (JNumber n) = (n \<noteq> 0)"
| "truthy (JString s) = (s \<noteq> [])"
| "truthy (JFunction f) = True"
| "truthy (JObject a) = True"

text \<open>
  Modelled from the spec: \<open>util.is(value, type)\<close> of \<open>lib/common/util.js\<close>, which is not
  among the sources. It is the runtime type test the normalizer's rules use
  ("is callable", "is an associative structure", "numeric").
\<close>

fun util_is :: "jsval \<Rightarrow> string \<Rightarrow> bool" where
  "util_is (JFunction f) t = (t = ''function'')"
| "util_is (JObject a) t = (t = ''object'')"
| "util_is (JNumber n) t = (t = ''number'')"
| "util_is (JString s) t = (t = ''string'')"
| "util_is (JBool b) t = (t = ''boolean'')"
| "util_is JNull t = (t = ''null'')"
| "util_is JUndefined t = (t = ''undefined'')"

definition props_of :: "store \<Rightarrow> addr \<Rightarrow> props" where
  "props_of h a = (if a < length h then h ! a else [])"

text \<open>Reading a property: a missing property reads as \<open>undefined\<close>.\<close>

definition lookup :: "props \<Rightarrow> string \<Rightarrow> jsval" where
  "lookup ps k = (case map_of ps k of Some v \<Rightarrow> v | None \<Rightarrow> JUndefined)"

fun getProp :: "store \<Rightarrow> jsval \<Rightarrow> string \<Rightarrow> jsval" where
  "getProp h (JObject a) k = lookup (props_of h a) k"
| "getProp h v k = JUndefined"

text \<open>An object literal allocates a new object at the next free address.\<close>

definition newObject :: "store \<Rightarrow> props \<Rightarrow> store \<times> jsval" where
  "newObject h ps = (h @ [ps], JObject (length h))"

text \<open>Assignment \<open>o.k = v\<close> to an allocated object: in place, under the same address.\<close>

definition setProp :: "store \<Rightarrow> addr \<Rightarrow> string \<Rightarrow> jsval \<Rightarrow> store" where
  "setProp h a k v = h[a := AList.update k v (props_of h a)]"

section \<open>The call normalizer: \<open>streamRouter.parseArguments_\<close>\<close>

record descriptor =
  query :: jsval
  callback :: jsval
  maxResults :: int
  autoPaginate :: bool

text \<open>\<open>args[0]\<close> and \<open>args[args.length - 1]\<close>: both read \<open>undefined\<close> on an empty list.\<close>

definition firstArgument :: "jsval list \<Rightarrow> jsval" where
  "firstArgument args = (case args of [] \<Rightarrow> JUndefined | a # _ \<Rightarrow> a)"

definition lastArgument :: "jsval list \<Rightarrow> jsval" where
  "lastArgument args = (if args = [] then JUndefined else last args)"

definition parseQuery :: "jsval list \<Rightarrow> jsval" where
  "parseQuery args =
     (if util_is (firstArgument args) ''function'' then JUndefined else firstArgument args)"

definition parseCallback :: "jsval list \<Rightarrow> jsval" where
  "parseCallback args =
     (if util_is (lastArgument args) ''function'' then lastArgument args
      else if util_is (firstArgument args) ''function'' then firstArgument args
      else JUndefined)"

definition parseMaxResults :: "store \<Rightarrow> jsval \<Rightarrow> int" where
  "parseMaxResults h q =
     (if util_is q ''object'' then
        (case getProp h q ''maxResults'' of
           JNumber n \<Rightarrow> n
         | _ \<Rightarrow> (case getProp h q ''limitVal'' of
                  JNumber n \<Rightarrow> n
                | _ \<Rightarrow> (case getProp h q ''pageSize'' of
                         JNumber n \<Rightarrow> n
                       | _ \<Rightarrow> - 1)))
      else - 1)"

definition parseAutoPaginate :: "store \<Rightarrow> jsval \<Rightarrow> jsval \<Rightarrow> int \<Rightarrow> bool" where
  "parseAutoPaginate h q cb m =
     (if util_is q ''object'' \<and> truthy cb \<and>
         (m \<noteq> - 1 \<or> getProp h q ''autoPaginate'' = JBool False
                  \<or> getProp h q ''autoPaginateVal'' = JBool False)
      then False else True)"

text \<open>
  The returned descriptor (the source's name ends in an underscore, which a constant's
  name here cannot); \<open>query || {}\<close> allocates an empty object when the query is
  missing or falsy, so the store is returned too.
\<close>

definition parseArguments :: "store \<Rightarrow> jsval list \<Rightarrow> store \<times> descriptor" where
  "parseArguments h args =
     (let q = parseQuery args;
          cb = parseCallback args;
          m = parseMaxResults h q;
          ap = parseAutoPaginate h q cb m;
          (h', q') = (if truthy q then (h, q) else newObject h [])
      in (h', \<lparr>query = q', callback = cb, maxResults = m, autoPaginate = ap\<rparr>))"

section \<open>The page-fetch operation and the stream\<close>

text \<open>
  What the page-fetch operation hands to its callback:
  \<open>callback(err, results, nextQuery, apiResponse)\<close>.
\<close>

record reply =
  err :: jsval
  results :: "jsval list"
  nextQuery :: jsval
  apiResponse :: jsval

text \<open>The three ways the user's callback is invoked.\<close>

datatype call =
    CbRaw reply               \<comment> \<open>by the page-fetch operation itself, with its four arguments\<close>
  | CbError jsval             \<comment> \<open>\<open>callback(err)\<close>, as the stream's error listener\<close>
  | CbResults "jsval list"    \<comment> \<open>\<open>callback(null, results)\<close>, from the collecting sink\<close>

text \<open>What the router does that can be observed from outside, in the order it happens.\<close>

datatype action =
    Fetch jsval               \<comment> \<open>\<open>originalMethod(q, ...)\<close> is called\<close>
  | Data jsval                \<comment> \<open>\<open>stream.push(result)\<close>\<close>
  | ErrorEvent jsval          \<comment> \<open>\<open>stream.emit('error', err)\<close>\<close>
  | EndCall                   \<comment> \<open>the stream's own \<open>end\<close> is called\<close>
  | Callback call             \<comment> \<open>the user's callback is called\<close>

text \<open>What happens to the router from outside.\<close>

datatype event =
    Reading                   \<comment> \<open>the consumer begins to read: the stream's \<open>reading\<close> event\<close>
  | Reply reply               \<comment> \<open>the page-fetch operation in flight calls back\<close>
  | ConsumerEnd               \<comment> \<open>the consumer calls \<open>stream.end()\<close> between two callbacks\<close>

datatype mode =
    PassThrough               \<comment> \<open>\<open>originalMethod(query, callback)\<close>\<close>
  | Aggregate                 \<comment> \<open>the stream piped into the collecting sink\<close>
  | Streaming                 \<comment> \<open>the stream returned to the caller\<close>

text \<open>
  The variables of one invocation of the router: \<open>query\<close>, \<open>resultsToSend\<close> and
  \<open>streamEnded\<close> of \<open>runAsStream_\<close>'s closure, whether the \<open>once('reading')\<close>
  listener has run, the number of calls of the page-fetch operation that have not called
  back yet, and the actions so far, oldest first.
\<close>

record world =
  mode :: mode
  query0 :: jsval
  resultsToSend :: int
  streamEnded :: bool
  readingFired :: bool
  pending :: nat
  log :: "action list"

text \<open>
  The consumer's \<open>data\<close> listener: from the items received so far, the newest last,
  whether it calls \<open>this.end()\<close> now.
\<close>

type_synonym consumer = "jsval list \<Rightarrow> bool"

text \<open>The consumer that never ends the stream, and the one that ends it at the \<open>j\<close>-th item.\<close>

definition quiet :: consumer where
  "quiet xs = False"

definition endAt :: "nat \<Rightarrow> consumer" where
  "endAt j xs = (length xs = j)"

fun dataOf :: "action \<Rightarrow> jsval list" where
  "dataOf (Data x) = [x]"
| "dataOf a = []"

fun fetchOf :: "action \<Rightarrow> jsval list" where
  "fetchOf (Fetch q) = [q]"
| "fetchOf a = []"

fun callOf :: "action \<Rightarrow> call list" where
  "callOf (Callback c) = [c]"
| "callOf a = []"

definition datas :: "world \<Rightarrow> jsval list" where
  "datas w = concat (map dataOf (log w))"

definition fetches :: "world \<Rightarrow> jsval list" where
  "fetches w = concat (map fetchOf (log w))"

definition calls :: "world \<Rightarrow> call list" where
  "calls w = concat (map callOf (log w))"

definition act :: "action \<Rightarrow> world \<Rightarrow> world" where
  "act a w = w\<lparr>log := log w @ [a]\<rparr>"

text \<open>\<open>originalMethod(q, ...)\<close>: one more call in flight.\<close>

definition originalMethod :: "jsval \<Rightarrow> world \<Rightarrow> world" where
  "originalMethod q w = (act (Fetch q) w)\<lparr>pending := Suc (pending w)\<rparr>"

text \<open>
  The overridden \<open>stream.end\<close>: sets \<open>streamEnded\<close> and calls the stream's own
  \<open>end\<close>. The stream comes from the libraries \<open>through2\<close> and \<open>concat-stream\<close>,
  modelled by their contract: the first \<open>end\<close> finishes the stream, the pipe then ends
  the collecting sink, and the sink hands the chunks it received, in order, to its
  function, which is \<open>callback(null, results)\<close>.
\<close>

definition stream_end :: "world \<Rightarrow> world" where
  "stream_end w =
     (let w' = act EndCall (w\<lparr>streamEnded := True\<rparr>)
      in if mode w = Aggregate \<and> EndCall \<notin> set (log w)
         then act (Callback (CbResults (datas w'))) w' else w')"

text \<open>
  \<open>stream.emit('error', err)\<close>: in aggregate mode the error listener is the user's
  callback. Emitting the event neither ends the stream nor detaches the sink.
\<close>

definition emit_error :: "jsval \<Rightarrow> world \<Rightarrow> world" where
  "emit_error e w =
     (let w' = act (ErrorEvent e) w
      in if mode w = Aggregate then act (Callback (CbError e)) w' else w')"

text \<open>
  \<open>stream.push(result)\<close>: the item reaches the consumer, whose listener may end the
  stream. In aggregate mode the consumer is the collecting sink, which never does.
\<close>

definition push :: "consumer \<Rightarrow> jsval \<Rightarrow> world \<Rightarrow> world" where
  "push c x w =
     (let w' = act (Data x) w
      in if mode w = Streaming \<and> c (datas w') then stream_end w' else w')"

text \<open>
  The loop \<open>while ((result = results.shift()) && resultsToSend !== 0 && !streamEnded)\<close>.
  \<open>shift()\<close> of an empty array is \<open>undefined\<close>, which is falsy, as a falsy item is.
\<close>

fun pushLoop :: "consumer \<Rightarrow> jsval list \<Rightarrow> world \<Rightarrow> world" where
  "pushLoop c [] w = w"
| "pushLoop c (result # rest) w =
     (if truthy result \<and> resultsToSend w \<noteq> 0 \<and> \<not> streamEnded w
      then pushLoop c rest
             ((push c result w)\<lparr>resultsToSend := resultsToSend (push c result w) - 1\<rparr>)
      else w)"

definition onResultSet :: "consumer \<Rightarrow> reply \<Rightarrow> world \<Rightarrow> world" where
  "onResultSet c r w =
     (if truthy (err r) then stream_end (emit_error (err r) w)
      else let w' = pushLoop c (results r) w
           in if streamEnded w' then w'
              else if resultsToSend w' = 0 then stream_end w'
              else if truthy (nextQuery r) then originalMethod (nextQuery r) w'
              else stream_end w')"

text \<open>
  One event. The page-fetch operation calls back once per call, so a reply can only come
  while a call is in flight; it goes to \<open>onResultSet\<close>, or in pass-through mode straight
  to the user's callback. The consumer holds the stream only in streaming mode.
\<close>

fun step :: "consumer \<Rightarrow> world \<Rightarrow> event \<Rightarrow> world" where
  "step c w Reading =
     (if mode w = PassThrough \<or> readingFired w then w
      else originalMethod (query0 w) (w\<lparr>readingFired := True\<rparr>))"
| "step c w (Reply r) =
     (if pending w = 0 then w
      else if mode w = PassThrough then act (Callback (CbRaw r)) (w\<lparr>pending := pending w - 1\<rparr>)
      else onResultSet c r (w\<lparr>pending := pending w - 1\<rparr>))"
| "step c w ConsumerEnd = (if mode w = Streaming then stream_end w else w)"

definition run :: "consumer \<Rightarrow> world \<Rightarrow> event list \<Rightarrow> world" where
  "run c w evs = foldl (step c) w evs"

text \<open>\<open>runAsStream_\<close>: the stream as it is returned, before anyone reads it.\<close>

definition runAsStream :: "descriptor \<Rightarrow> world" where
  "runAsStream d =
     \<lparr>mode = Streaming, query0 = query d, resultsToSend = maxResults d,
      streamEnded = False, readingFired = False, pending = 0, log = []\<rparr>"

text \<open>
  \<open>router_\<close>. With a callback and auto-pagination the stream is piped into the
  collecting sink, which starts reading it; the consumer's listener plays no part then.
\<close>

definition router :: "descriptor \<Rightarrow> world" where
  "router d =
     (if truthy (callback d) then
        (if autoPaginate d
         then step quiet ((runAsStream d)\<lparr>mode := Aggregate\<rparr>) Reading
         else originalMethod (query d) ((runAsStream d)\<lparr>mode := PassThrough\<rparr>))
      else runAsStream d)"

section \<open>Auxiliary notions and invariants\<close>



text \<open>A numeric limit field is present in the query object.\<close>

definition numericLimit :: "store \<Rightarrow> jsval \<Rightarrow> bool" where
  "numericLimit h q =
     (util_is (getProp h q ''maxResults'') ''number'' \<or>
      util_is (getProp h q ''limitVal'') ''number'' \<or>
      util_is (getProp h q ''pageSize'') ''number'')"

text \<open>The stream's invariant on the calls in flight.\<close>

definition lazy_inv :: "world \<Rightarrow> bool" where
  "lazy_inv w \<longleftrightarrow> mode w \<noteq> PassThrough \<and> pending w \<le> 1 \<and>
                (\<not> readingFired w \<longrightarrow> pending w = 0 \<and> fetches w = [])"

text \<open>What a counter value lets through of a page: all of it when negative.\<close>

definition sendable :: "int \<Rightarrow> 'a list \<Rightarrow> 'a list" where
  "sendable k xs = (if k < 0 then xs else take (nat k) xs)"

text \<open>
  The consumer's invariant: if its listener ended the stream at the \<open>k\<close>-th item, that
  item is the last one pushed and the stream is ended.
\<close>

definition ended_inv :: "consumer \<Rightarrow> world \<Rightarrow> bool" where
  "ended_inv c w \<longleftrightarrow>
     (\<forall>k. 0 < k \<and> k \<le> length (datas w) \<and> c (take k (datas w)) \<longrightarrow>
          length (datas w) = k \<and> streamEnded w)"

text \<open>
  How many pages of a sequence it takes to supply \<open>m\<close> items: the last of them is the
  page that supplies the \<open>m\<close>-th item.
\<close>

fun pagesNeeded :: "int \<Rightarrow> reply list \<Rightarrow> nat" where
  "pagesNeeded m [] = 0"
| "pagesNeeded m (p # ps) =
     (if m \<le> int (length (results p)) then 1
      else Suc (pagesNeeded (m - int (length (results p))) ps))"

text \<open>
  The cap's invariant: the counter of a capped stream is not negative, and when it is
  zero the stream is ended with no call in flight.
\<close>

definition cap_inv :: "world \<Rightarrow> bool" where
  "cap_inv w \<longleftrightarrow> lazy_inv w \<and> 0 \<le> resultsToSend w \<and>
               (resultsToSend w = 0 \<longrightarrow> streamEnded w \<and> pending w = 0 \<and> readingFired w)"

text \<open>The counter is the cap less the items pushed.\<close>

definition counter_inv :: "int \<Rightarrow> world \<Rightarrow> bool" where
  "counter_inv m w \<longleftrightarrow> resultsToSend w = m - int (length (datas w))"

text \<open>The flag is set only by the overridden \<open>end\<close>, which calls the stream's own.\<close>

definition flag_inv :: "world \<Rightarrow> bool" where
  "flag_inv w \<longleftrightarrow> (streamEnded w \<longrightarrow> EndCall \<in> set (log w))"

text \<open>
  With a consumer that leaves the ending to the driver: an ended stream has the call of
  its own \<open>end\<close> as its last action, and no call in flight.
\<close>

definition driver_end_inv :: "world \<Rightarrow> bool" where
  "driver_end_inv w \<longleftrightarrow> mode w = Streaming \<and> lazy_inv w \<and>
     (streamEnded w \<longrightarrow> log w \<noteq> [] \<and> last (log w) = EndCall \<and> pending w = 0 \<and>
                       readingFired w)"

section \<open>BigQuery: \<open>getDatasets\<close>, \<open>getJobs\<close> and \<open>Job.getQueryResults\<close>\<close>

datatype error = TypeError

text \<open>A call of \<open>makeReq_(method, path, query, body, ...)\<close>; it is not among the sources.\<close>

record request =
  reqMethod :: string
  reqPath :: string
  reqQuery :: jsval
  reqBody :: jsval

text \<open>
  One call of the callback these methods are given:
  \<open>callback(err, items, nextQuery, resp)\<close>, where no items is \<open>null\<close>.
\<close>

record invocation =
  argErr :: jsval
  argItems :: "jsval list option"
  argNextQuery :: jsval
  argResp :: jsval

text \<open>
  The properties a \<open>for ... in\<close> loop finds on a value. The queries of these methods are
  objects; the characters of a string are not modelled as properties.
\<close>

fun ownProps :: "store \<Rightarrow> jsval \<Rightarrow> props" where
  "ownProps h (JObject a) = props_of h a"
| "ownProps h v = []"

definition ownKeys :: "props \<Rightarrow> string list" where
  "ownKeys ps = remdups (map fst ps)"

text \<open>
  The library function \<open>extend(target, source, ...)\<close>, here \<open>extendObject\<close>, modelled
  by its contract: it copies into the target, source after source, every property whose
  value is not \<open>undefined\<close>, and returns the target. The target here is always the new object \<open>{}\<close>,
  so it is built first and allocated with its final properties.
\<close>

definition copyInto :: "props \<Rightarrow> props \<Rightarrow> props" where
  "copyInto target source =
     foldl (\<lambda>t k. if lookup source k = JUndefined then t
                   else AList.update k (lookup source k) t)
           target (ownKeys source)"

definition extendObject :: "store \<Rightarrow> props list \<Rightarrow> store \<times> jsval" where
  "extendObject h sources = newObject h (foldl copyInto [] sources)"

text \<open>
  The opening lines the three methods share:
  \<open>if (util.is(query, 'function')) { callback = query; query = {}; }  query = query || {};\<close>
\<close>

definition defaultArgs :: "store \<Rightarrow> jsval \<Rightarrow> jsval \<Rightarrow> store \<times> jsval \<times> jsval" where
  "defaultArgs h q cb =
     (let (h1, q1, cb1) = (if util_is q ''function''
                           then (fst (newObject h []), snd (newObject h []), q)
                           else (h, q, cb));
          (h2, q2) = (if truthy q1 then (h1, q1) else newObject h1 [])
      in (h2, q2, cb1))"

text \<open>
  \<open>getDatasets(query, callback)\<close> up to its request: the store, the request and the
  callback it keeps. (\<open>q0\<close>, \<open>cb0\<close>, \<open>e\<close> and \<open>nq\<close> stand for the source's \<open>query\<close>,
  \<open>callback\<close>, \<open>err\<close> and \<open>nextQuery\<close>, names taken by the descriptor and the reply.)
\<close>

definition getDatasets :: "store \<Rightarrow> jsval \<Rightarrow> jsval \<Rightarrow> store \<times> request \<times> jsval" where
  "getDatasets h q0 cb0 =
     (let (h', q, cb) = defaultArgs h q0 cb0
      in (h', \<lparr>reqMethod = ''GET'', reqPath = ''/datasets'', reqQuery = q, reqBody = JNull\<rparr>,
          cb))"

text \<open>
  The function \<open>getDatasets\<close> hands to \<open>makeReq_\<close>, called with \<open>(err, resp)\<close>. The
  \<open>Dataset\<close> objects it builds from \<open>resp.datasets\<close> come from a class that is not among
  the sources; they are the parameter \<open>datasets\<close>.
\<close>

definition getDatasets_response ::
  "store \<Rightarrow> jsval \<Rightarrow> jsval list \<Rightarrow> jsval \<Rightarrow> jsval \<Rightarrow> store \<times> invocation" where
  "getDatasets_response h q datasets e resp =
     (if truthy e
      then (h, \<lparr>argErr = e, argItems = None, argNextQuery = JNull, argResp = resp\<rparr>)
      else let (h', nq) =
                 (if truthy (getProp h resp ''nextPageToken'')
                  then extendObject h [ownProps h q,
                                 [(''pageToken'', getProp h resp ''nextPageToken'')]]
                  else (h, JNull))
           in (h', \<lparr>argErr = JNull, argItems = Some datasets, argNextQuery = nq,
                    argResp = resp\<rparr>))"

text \<open>\<open>getJobs\<close>, written like \<open>getDatasets\<close>.\<close>

definition getJobs :: "store \<Rightarrow> jsval \<Rightarrow> jsval \<Rightarrow> store \<times> request \<times> jsval" where
  "getJobs h options cb0 =
     (let (h', opts, cb) = defaultArgs h options cb0
      in (h', \<lparr>reqMethod = ''GET'', reqPath = ''/jobs'', reqQuery = opts, reqBody = JNull\<rparr>,
          cb))"

definition getJobs_response ::
  "store \<Rightarrow> jsval \<Rightarrow> jsval list \<Rightarrow> jsval \<Rightarrow> jsval \<Rightarrow> store \<times> invocation" where
  "getJobs_response h options jobs e resp =
     (if truthy e
      then (h, \<lparr>argErr = e, argItems = None, argNextQuery = JNull, argResp = resp\<rparr>)
      else let (h', nq) =
                 (if truthy (getProp h resp ''nextPageToken'')
                  then extendObject h [ownProps h options,
                                 [(''pageToken'', getProp h resp ''nextPageToken'')]]
                  else (h, JNull))
           in (h', \<lparr>argErr = JNull, argItems = Some jobs, argNextQuery = nq,
                    argResp = resp\<rparr>))"

text \<open>
  \<open>Job.prototype.getQueryResults\<close>, up to its call of \<open>this.bigQuery.query\<close>: the store
  and the two arguments of that call. The file is in strict mode, where setting a
  property on a value that is not an object throws.
\<close>

definition getQueryResults ::
  "store \<Rightarrow> jsval \<Rightarrow> jsval \<Rightarrow> jsval \<Rightarrow> error + store \<times> jsval \<times> jsval" where
  "getQueryResults h this options cb0 =
     (let (h', opts, cb) = defaultArgs h options cb0
      in case opts of
           JObject a \<Rightarrow> Inr (setProp h' a ''job'' this, opts, cb)
         | _ \<Rightarrow> Inl TypeError)"

section \<open>Sample data\<close>

definition samplePage :: reply where
  "samplePage = \<lparr>err = JNull, results = [JObject 1, JObject 2], nextQuery = JObject 3,
                 apiResponse = JObject 4\<rparr>"

definition sampleStream :: descriptor where
  "sampleStream = \<lparr>query = JObject 0, callback = JUndefined, maxResults = - 1,
                    autoPaginate = True\<rparr>"

definition sampleCapped :: descriptor where
  "sampleCapped = snd (parseArguments [[(''maxResults'', JNumber 3)]] [JObject 0])"

definition sampleOne :: descriptor where
  "sampleOne = snd (parseArguments [[(''maxResults'', JNumber 1)]] [JObject 0])"

definition sampleLastPage :: reply where
  "sampleLastPage = \<lparr>err = JNull, results = [JObject 5, JObject 6], nextQuery = JNull,
                     apiResponse = JObject 7\<rparr>"

definition sampleFailure :: reply where
  "sampleFailure = \<lparr>err = JString ''backend error'', results = [], nextQuery = JNull,
                    apiResponse = JNull\<rparr>"

definition sampleAggregate :: descriptor where
  "sampleAggregate = snd (parseArguments [[]] [JObject 0, JFunction 1])"

definition sampleStore :: store where
  "sampleStore = [[(''maxResults'', JNumber 5), (''pageToken'', JString ''first'')],
                  [(''nextPageToken'', JString ''second'')],
                  []]"

section \<open>Properties of the call normalizer and of pass-through mode\<close>

lemma util_is_number: "util_is v ''number'' = (\<exists>n. v = JNumber n)"
  by (cases v) auto




lemma parseArguments_fields:
  "maxResults (snd (parseArguments h args)) = parseMaxResults h (parseQuery args)"
  "callback (snd (parseArguments h args)) = parseCallback args"
  "autoPaginate (snd (parseArguments h args)) =
     parseAutoPaginate h (parseQuery args) (parseCallback args)
       (parseMaxResults h (parseQuery args))"
  "query (snd (parseArguments h args)) =
     (if truthy (parseQuery args) then parseQuery args else JObject (length h))"
  by (simp_all add: parseArguments_def Let_def newObject_def split: prod.splits)


lemma parseQuery_object: "parseQuery (JObject a # rest) = JObject a"
  by (simp add: parseQuery_def firstArgument_def)

text \<open>
  C6: for a query object as first argument, \<open>maxResults\<close> is taken from the first
  numeric field in the order \<open>maxResults\<close>, \<open>limitVal\<close>, \<open>pageSize\<close>, whatever the
  later fields hold, and stays at -1 when none of the three is numeric.
\<close>

theorem maxResults_precedence:
  fixes h :: store and a :: addr and rest :: "jsval list"
  defines "q \<equiv> JObject a"
  defines "m \<equiv> maxResults (snd (parseArguments h (JObject a # rest)))"
  shows "(\<forall>n. getProp h q ''maxResults'' = JNumber n \<longrightarrow> m = n) \<and>
         (\<not> util_is (getProp h q ''maxResults'') ''number'' \<longrightarrow>
            (\<forall>n. getProp h q ''limitVal'' = JNumber n \<longrightarrow> m = n)) \<and>
         (\<not> util_is (getProp h q ''maxResults'') ''number'' \<and>
          \<not> util_is (getProp h q ''limitVal'') ''number'' \<longrightarrow>
            (\<forall>n. getProp h q ''pageSize'' = JNumber n \<longrightarrow> m = n)) \<and>
         (\<not> numericLimit h q \<longrightarrow> m = - 1)"
  unfolding q_def m_def parseArguments_fields parseQuery_object
  by (auto simp: parseMaxResults_def numericLimit_def util_is_number split: jsval.splits)

theorem maxResults_precedence_witness:
  "maxResults (snd (parseArguments
      [[(''maxResults'', JNumber 5), (''limitVal'', JNumber 7), (''pageSize'', JNumber 3)]]
      [JObject 0])) = 5 \<and>
   maxResults (snd (parseArguments
      [[(''maxResults'', JString ''all''), (''limitVal'', JNumber 7), (''pageSize'', JNumber 3)]]
      [JObject 0, JFunction 1])) = 7 \<and>
   maxResults (snd (parseArguments
      [[(''pageSize'', JNumber 3)]] [JObject 0])) = 3 \<and>
   maxResults (snd (parseArguments [[(''autoPaginate'', JBool False)]] [JObject 0])) = - 1"
  using maxResults_precedence
          [of "[[(''maxResults'', JNumber 5), (''limitVal'', JNumber 7), (''pageSize'', JNumber 3)]]"
              0 "[]"]
        maxResults_precedence
          [of "[[(''maxResults'', JString ''all''), (''limitVal'', JNumber 7), (''pageSize'', JNumber 3)]]"
              0 "[JFunction 1]"]
        maxResults_precedence [of "[[(''pageSize'', JNumber 3)]]" 0 "[]"]
        maxResults_precedence [of "[[(''autoPaginate'', JBool False)]]" 0 "[]"]
  by (simp add: props_of_def lookup_def numericLimit_def)



lemma run_Cons: "run c w (e # evs) = run c (step c w e) evs"
  by (simp add: run_def)

lemma run_Nil: "run c w [] = w"
  by (simp add: run_def)

lemma run_append: "run c w (evs @ evs') = run c (run c w evs) evs'"
  by (simp add: run_def)



lemma datas_simps [simp]:
  "datas (w\<lparr>log := l\<rparr>) = concat (map dataOf l)"
  "datas (w\<lparr>pending := p\<rparr>) = datas w"
  "datas (w\<lparr>streamEnded := b\<rparr>) = datas w"
  "datas (w\<lparr>readingFired := b\<rparr>) = datas w"
  "datas (w\<lparr>resultsToSend := n\<rparr>) = datas w"
  "datas (w\<lparr>mode := md\<rparr>) = datas w"
  by (simp_all add: datas_def)

lemma fetches_simps [simp]:
  "fetches (w\<lparr>log := l\<rparr>) = concat (map fetchOf l)"
  "fetches (w\<lparr>pending := p\<rparr>) = fetches w"
  "fetches (w\<lparr>streamEnded := b\<rparr>) = fetches w"
  "fetches (w\<lparr>readingFired := b\<rparr>) = fetches w"
  "fetches (w\<lparr>resultsToSend := n\<rparr>) = fetches w"
  "fetches (w\<lparr>mode := md\<rparr>) = fetches w"
  by (simp_all add: fetches_def)

lemma calls_simps [simp]:
  "calls (w\<lparr>log := l\<rparr>) = concat (map callOf l)"
  "calls (w\<lparr>pending := p\<rparr>) = calls w"
  "calls (w\<lparr>streamEnded := b\<rparr>) = calls w"
  "calls (w\<lparr>readingFired := b\<rparr>) = calls w"
  "calls (w\<lparr>resultsToSend := n\<rparr>) = calls w"
  "calls (w\<lparr>mode := md\<rparr>) = calls w"
  by (simp_all add: calls_def)



section \<open>Properties of the stream driver\<close>

lemma act_fields [simp]:
  "mode (act a w) = mode w"
  "query0 (act a w) = query0 w"
  "resultsToSend (act a w) = resultsToSend w"
  "streamEnded (act a w) = streamEnded w"
  "readingFired (act a w) = readingFired w"
  "pending (act a w) = pending w"
  "log (act a w) = log w @ [a]"
  "datas (act a w) = datas w @ dataOf a"
  "fetches (act a w) = fetches w @ fetchOf a"
  "calls (act a w) = calls w @ callOf a"
  by (simp_all add: act_def datas_def fetches_def calls_def)

lemma originalMethod_fields [simp]:
  "mode (originalMethod q w) = mode w"
  "query0 (originalMethod q w) = query0 w"
  "resultsToSend (originalMethod q w) = resultsToSend w"
  "streamEnded (originalMethod q w) = streamEnded w"
  "readingFired (originalMethod q w) = readingFired w"
  "pending (originalMethod q w) = Suc (pending w)"
  "log (originalMethod q w) = log w @ [Fetch q]"
  "datas (originalMethod q w) = datas w"
  "fetches (originalMethod q w) = fetches w @ [q]"
  "calls (originalMethod q w) = calls w"
  by (simp_all add: originalMethod_def)

lemma stream_end_fields [simp]:
  "mode (stream_end w) = mode w"
  "query0 (stream_end w) = query0 w"
  "resultsToSend (stream_end w) = resultsToSend w"
  "streamEnded (stream_end w) = True"
  "readingFired (stream_end w) = readingFired w"
  "pending (stream_end w) = pending w"
  "datas (stream_end w) = datas w"
  "fetches (stream_end w) = fetches w"
  by (simp_all add: stream_end_def Let_def)

lemma emit_error_fields [simp]:
  "mode (emit_error e w) = mode w"
  "query0 (emit_error e w) = query0 w"
  "resultsToSend (emit_error e w) = resultsToSend w"
  "streamEnded (emit_error e w) = streamEnded w"
  "readingFired (emit_error e w) = readingFired w"
  "pending (emit_error e w) = pending w"
  "datas (emit_error e w) = datas w"
  "fetches (emit_error e w) = fetches w"
  by (simp_all add: emit_error_def Let_def)

lemma push_fields [simp]:
  "mode (push c x w) = mode w"
  "query0 (push c x w) = query0 w"
  "resultsToSend (push c x w) = resultsToSend w"
  "streamEnded (push c x w) = (streamEnded w \<or> mode w = Streaming \<and> c (datas w @ [x]))"
  "readingFired (push c x w) = readingFired w"
  "pending (push c x w) = pending w"
  "datas (push c x w) = datas w @ [x]"
  "fetches (push c x w) = fetches w"
  by (auto simp: push_def Let_def)

lemma pushLoop_fields [simp]:
  "mode (pushLoop c xs w) = mode w"
  "query0 (pushLoop c xs w) = query0 w"
  "readingFired (pushLoop c xs w) = readingFired w"
  "pending (pushLoop c xs w) = pending w"
  "fetches (pushLoop c xs w) = fetches w"
  by (induction xs arbitrary: w; simp)+

lemma pushLoop_ended [simp]: "streamEnded w \<Longrightarrow> pushLoop c xs w = w"
  by (cases xs) simp_all

lemma pushLoop_zero [simp]: "resultsToSend w = 0 \<Longrightarrow> pushLoop c xs w = w"
  by (cases xs) simp_all

lemma pushLoop_ended_mono: "streamEnded w \<Longrightarrow> streamEnded (pushLoop c xs w)"
  by simp

lemma pushLoop_counter:
  "resultsToSend (pushLoop c xs w) =
     resultsToSend w - (int (length (datas (pushLoop c xs w))) - int (length (datas w)))"
  by (induction xs arbitrary: w) simp_all

lemma pushLoop_datas_prefix: "\<exists>ys. datas (pushLoop c xs w) = datas w @ ys"
proof (induction xs arbitrary: w)
  case Nil
  then show ?case by simp
next
  case (Cons x xs)
  show ?case
  proof (cases "truthy x \<and> resultsToSend w \<noteq> 0 \<and> \<not> streamEnded w")
    case True
    obtain ys where "datas (pushLoop c xs ((push c x w)\<lparr>resultsToSend := resultsToSend (push c x w) - 1\<rparr>))
        = datas ((push c x w)\<lparr>resultsToSend := resultsToSend (push c x w) - 1\<rparr>) @ ys"
      using Cons.IH by blast
    then show ?thesis using True by simp
  next
    case False
    then show ?thesis by auto
  qed
qed

lemma pushLoop_nonneg:
  "0 \<le> resultsToSend w \<Longrightarrow> 0 \<le> resultsToSend (pushLoop c xs w)"
  by (induction xs arbitrary: w) simp_all

lemma pushLoop_neg:
  "resultsToSend w < 0 \<Longrightarrow> resultsToSend (pushLoop c xs w) < 0"
  by (induction xs arbitrary: w) simp_all

lemma pushLoop_decreases: "resultsToSend (pushLoop c xs w) \<le> resultsToSend w"
proof (induction xs arbitrary: w)
  case Nil
  then show ?case by simp
next
  case (Cons x xs)
  have "resultsToSend (pushLoop c xs ((push c x w)\<lparr>resultsToSend := resultsToSend w - 1\<rparr>))
          \<le> resultsToSend w - 1"
    using Cons.IH [of "(push c x w)\<lparr>resultsToSend := resultsToSend w - 1\<rparr>"] by simp
  then show ?case by simp
qed

lemma onResultSet_fields [simp]:
  "mode (onResultSet c r w) = mode w"
  "query0 (onResultSet c r w) = query0 w"
  "readingFired (onResultSet c r w) = readingFired w"
  by (simp_all add: onResultSet_def Let_def)

lemma onResultSet_decreases: "resultsToSend (onResultSet c r w) \<le> resultsToSend w"
  using pushLoop_decreases [of c "results r" w] by (simp add: onResultSet_def Let_def)

lemma onResultSet_ended:
  assumes "streamEnded w"
  shows "streamEnded (onResultSet c r w)" and "datas (onResultSet c r w) = datas w"
    and "fetches (onResultSet c r w) = fetches w" and "pending (onResultSet c r w) = pending w"
  using assms by (simp_all add: onResultSet_def Let_def)

lemma onResultSet_pending:
  "pending (onResultSet c r w) = pending w \<and> fetches (onResultSet c r w) = fetches w \<or>
   pending (onResultSet c r w) = Suc (pending w) \<and>
     fetches (onResultSet c r w) = fetches w @ [nextQuery r]"
  by (simp add: onResultSet_def Let_def)

lemma step_fields [simp]:
  "mode (step c w e) = mode w"
  "query0 (step c w e) = query0 w"
  by (cases e; simp)+

lemma step_decreases: "resultsToSend (step c w e) \<le> resultsToSend w"
  by (cases e) (simp_all add: onResultSet_decreases [THEN order_trans])

lemma step_ended: "streamEnded w \<Longrightarrow> streamEnded (step c w e)"
  by (cases e) (simp_all add: onResultSet_ended)

lemma step_readingFired: "readingFired w \<Longrightarrow> readingFired (step c w e)"
  by (cases e) simp_all

lemma step_quiet:
  assumes "readingFired w" and "streamEnded w"
  shows "datas (step c w e) = datas w" and "fetches (step c w e) = fetches w"
  using assms by (cases e; simp add: onResultSet_ended)+

lemma run_quiet:
  "readingFired w \<Longrightarrow> streamEnded w \<Longrightarrow>
   datas (run c w evs) = datas w \<and> fetches (run c w evs) = fetches w \<and>
   streamEnded (run c w evs) \<and> readingFired (run c w evs)"
proof (induction evs arbitrary: w)
  case Nil
  then show ?case by (simp add: run_Nil)
next
  case (Cons e evs)
  have "readingFired (step c w e)" and "streamEnded (step c w e)"
    using Cons.prems by (simp_all add: step_readingFired step_ended)
  then show ?case
    using Cons.IH [of "step c w e"] Cons.prems by (simp add: run_Cons step_quiet)
qed

lemma lazy_inv_init: "lazy_inv (runAsStream d)"
  by (simp add: lazy_inv_def runAsStream_def fetches_def)

lemma lazy_inv_step: "lazy_inv w \<Longrightarrow> lazy_inv (step c w e)"
proof (cases e)
  case Reading
  assume "lazy_inv w"
  then show ?thesis using Reading by (auto simp: lazy_inv_def)
next
  case (Reply r)
  assume "lazy_inv w"
  then show ?thesis
    using Reply onResultSet_pending [of c r "w\<lparr>pending := pending w - 1\<rparr>"]
    by (auto simp: lazy_inv_def)
next
  case ConsumerEnd
  assume "lazy_inv w"
  then show ?thesis using ConsumerEnd by (auto simp: lazy_inv_def)
qed

lemma lazy_inv_run: "lazy_inv w \<Longrightarrow> lazy_inv (run c w evs)"
  by (induction evs arbitrary: w) (simp_all add: run_Nil run_Cons lazy_inv_step)

lemma run_not_reading:
  "Reading \<notin> set evs \<Longrightarrow> \<not> readingFired w \<Longrightarrow> \<not> readingFired (run c w evs)"
proof (induction evs arbitrary: w)
  case Nil
  then show ?case by (simp add: run_Nil)
next
  case (Cons e evs)
  then have "\<not> readingFired (step c w e)" by (cases e) simp_all
  then show ?case using Cons by (simp add: run_Cons)
qed

lemma step_new_fetch:
  assumes "lazy_inv w" and "fetches (step c w e) \<noteq> fetches w"
  shows "(e = Reading \<and> fetches w = [] \<and> fetches (step c w e) = [query0 w] \<or>
          (\<exists>r. e = Reply r \<and> pending w = 1 \<and>
               fetches (step c w e) = fetches w @ [nextQuery r])) \<and>
         pending (step c w e) = 1"
proof (cases e)
  case Reading
  then show ?thesis using assms by (auto simp: lazy_inv_def split: if_splits)
next
  case (Reply r)
  then show ?thesis
    using assms onResultSet_pending [of c r "w\<lparr>pending := pending w - 1\<rparr>"]
    by (auto simp: lazy_inv_def split: if_splits)
next
  case ConsumerEnd
  then show ?thesis using assms by (auto split: if_splits)
qed

text \<open>
  C4: for the stream of any descriptor, any consumer and any sequence of events: no
  fetch has been issued as long as the consumer has not begun to read; at most one call
  of the page-fetch operation is in flight; and an event that issues a fetch is either
  the first read, with no fetch before it, or the reply to the one call in flight, which
  it has taken out of flight before the next call goes out with that reply's
  \<open>nextQuery\<close>.
\<close>

theorem one_fetch_in_flight:
  fixes d :: descriptor and c :: consumer and evs :: "event list"
  defines "w \<equiv> run c (runAsStream d) evs"
  shows "(Reading \<notin> set evs \<longrightarrow> fetches w = []) \<and>
         pending w \<le> 1 \<and>
         (\<forall>e. fetches (step c w e) \<noteq> fetches w \<longrightarrow>
              (e = Reading \<and> fetches w = [] \<and> fetches (step c w e) = [query d] \<or>
               (\<exists>r. e = Reply r \<and> pending w = 1 \<and>
                    fetches (step c w e) = fetches w @ [nextQuery r])) \<and>
              pending (step c w e) = 1)"
proof -
  have inv: "lazy_inv w"
    unfolding w_def by (rule lazy_inv_run [OF lazy_inv_init])
  have q: "query0 w = query d"
    unfolding w_def run_def by (induction evs rule: rev_induct) (simp_all add: runAsStream_def)
  have "Reading \<notin> set evs \<Longrightarrow> fetches w = []"
    using run_not_reading [of evs "runAsStream d" c] inv
    unfolding w_def lazy_inv_def by (simp add: runAsStream_def)
  moreover have "pending w \<le> 1"
    using inv by (simp add: lazy_inv_def)
  moreover have "\<And>e. fetches (step c w e) \<noteq> fetches w \<Longrightarrow>
              (e = Reading \<and> fetches w = [] \<and> fetches (step c w e) = [query d] \<or>
               (\<exists>r. e = Reply r \<and> pending w = 1 \<and>
                    fetches (step c w e) = fetches w @ [nextQuery r])) \<and>
              pending (step c w e) = 1"
    using step_new_fetch [OF inv] q by simp
  ultimately show ?thesis by blast
qed

theorem one_fetch_in_flight_witness:
  "fetches (run quiet (runAsStream sampleStream) [ConsumerEnd, Reply samplePage]) = [] \<and>
   pending (run quiet (runAsStream sampleStream) [Reading, Reply samplePage]) = 1 \<and>
   fetches (run quiet (runAsStream sampleStream) [Reading, Reply samplePage, Reply samplePage])
     = [JObject 0, JObject 3, JObject 3]"
  using one_fetch_in_flight [of "[ConsumerEnd, Reply samplePage]" quiet sampleStream]
        one_fetch_in_flight [of "[Reading, Reply samplePage]" quiet sampleStream]
  by (simp add: run_def runAsStream_def sampleStream_def samplePage_def onResultSet_def
      originalMethod_def push_def stream_end_def act_def fetches_def datas_def Let_def
      quiet_def endAt_def)

lemma sendable_Cons:
  "k \<noteq> 0 \<Longrightarrow> sendable k (x # xs) = x # sendable (k - 1) xs"
  by (auto simp: sendable_def take_Cons' nat_diff_distrib)

lemma sendable_zero [simp]: "sendable 0 xs = []"
  by (simp add: sendable_def)

lemma push_quiet:
  "mode w \<noteq> Streaming \<or> (\<forall>xs. \<not> c xs) \<Longrightarrow> push c x w = act (Data x) w"
  by (auto simp: push_def Let_def)

lemma pushLoop_all:
  assumes "mode w \<noteq> Streaming \<or> (\<forall>xs. \<not> c xs)" and "\<not> streamEnded w"
    and "\<forall>x\<in>set xs. truthy x"
  shows "pushLoop c xs w =
           w\<lparr>resultsToSend := resultsToSend w - int (length (sendable (resultsToSend w) xs)),
              log := log w @ map Data (sendable (resultsToSend w) xs)\<rparr>"
  using assms
proof (induction xs arbitrary: w)
  case Nil
  then show ?case by (simp add: sendable_def)
next
  case (Cons x xs)
  show ?case
  proof (cases "resultsToSend w = 0")
    case True
    then show ?thesis by simp
  next
    case False
    let ?w = "(act (Data x) w)\<lparr>resultsToSend := resultsToSend w - 1\<rparr>"
    have "pushLoop c (x # xs) w = pushLoop c xs ?w"
      using Cons.prems False by (simp add: push_quiet)
    also have "\<dots> = ?w\<lparr>resultsToSend := resultsToSend ?w - int (length (sendable (resultsToSend ?w) xs)),
              log := log ?w @ map Data (sendable (resultsToSend ?w) xs)\<rparr>"
      using Cons.prems by (intro Cons.IH) simp_all
    finally show ?thesis
      using False by (simp add: sendable_Cons act_def)
  qed
qed

lemma pushLoop_ended_inv:
  "mode w = Streaming \<Longrightarrow> ended_inv c w \<Longrightarrow> ended_inv c (pushLoop c xs w)"
proof (induction xs arbitrary: w)
  case Nil
  then show ?case by simp
next
  case (Cons x xs)
  show ?case
  proof (cases "truthy x \<and> resultsToSend w \<noteq> 0 \<and> \<not> streamEnded w")
    case False
    then show ?thesis using Cons.prems by auto
  next
    case True
    let ?w = "(push c x w)\<lparr>resultsToSend := resultsToSend (push c x w) - 1\<rparr>"
    have none: "\<And>k. 0 < k \<Longrightarrow> k \<le> length (datas w) \<Longrightarrow> \<not> c (take k (datas w))"
      using Cons.prems(2) True unfolding ended_inv_def by blast
    have "ended_inv c ?w"
      unfolding ended_inv_def
    proof (intro allI impI)
      fix k
      assume k: "0 < k \<and> k \<le> length (datas ?w) \<and> c (take k (datas ?w))"
      show "length (datas ?w) = k \<and> streamEnded ?w"
      proof (cases "k \<le> length (datas w)")
        case True
        then show ?thesis using k none [of k] by simp
      next
        case False
        then have "k = Suc (length (datas w))" using k by simp
        then show ?thesis using k Cons.prems(1) by simp
      qed
    qed
    moreover have "mode ?w = Streaming" using Cons.prems(1) by simp
    ultimately have "ended_inv c (pushLoop c xs ?w)" by (rule Cons.IH [rotated])
    then show ?thesis using True by simp
  qed
qed

lemma ended_inv_cong:
  "ended_inv c w \<Longrightarrow> datas w' = datas w \<Longrightarrow> (streamEnded w \<Longrightarrow> streamEnded w') \<Longrightarrow>
   ended_inv c w'"
  unfolding ended_inv_def by metis

lemma onResultSet_ended_inv:
  assumes "mode w = Streaming" and "ended_inv c w"
  shows "ended_inv c (onResultSet c r w)"
proof (cases "truthy (err r)")
  case True
  then show ?thesis
    using assms(2) by (auto simp: onResultSet_def intro: ended_inv_cong)
next
  case False
  have "ended_inv c (pushLoop c (results r) w)"
    using assms by (rule pushLoop_ended_inv)
  then show ?thesis
    using False by (auto simp: onResultSet_def Let_def intro: ended_inv_cong)
qed

lemma step_ended_inv:
  assumes "mode w = Streaming" and "ended_inv c w"
  shows "ended_inv c (step c w e)"
proof (cases e)
  case Reading
  then show ?thesis using assms(2) by (auto intro: ended_inv_cong)
next
  case (Reply r)
  have "ended_inv c (w\<lparr>pending := pending w - 1\<rparr>)"
    using assms(2) by (rule ended_inv_cong) simp_all
  then have "ended_inv c (onResultSet c r (w\<lparr>pending := pending w - 1\<rparr>))"
    using assms(1) by (intro onResultSet_ended_inv) simp_all
  then show ?thesis using Reply assms by simp
next
  case ConsumerEnd
  then show ?thesis using assms(2) by (auto intro: ended_inv_cong)
qed

lemma run_ended_inv:
  "mode w = Streaming \<Longrightarrow> ended_inv c w \<Longrightarrow> ended_inv c (run c w evs)"
  by (induction evs arbitrary: w) (simp_all add: run_Nil run_Cons step_ended_inv)

lemma step_datas_reading:
  "lazy_inv w \<Longrightarrow> datas w \<noteq> [] \<longrightarrow> readingFired w \<Longrightarrow>
   datas (step c w e) \<noteq> [] \<longrightarrow> readingFired (step c w e)"
  by (cases e) (auto simp: lazy_inv_def)

lemma run_datas_reading:
  "lazy_inv w \<Longrightarrow> datas w \<noteq> [] \<longrightarrow> readingFired w \<Longrightarrow>
   datas (run c w evs) \<noteq> [] \<longrightarrow> readingFired (run c w evs)"
proof (induction evs arbitrary: w)
  case Nil
  then show ?case by (simp add: run_Nil)
next
  case (Cons e evs)
  show ?case
    unfolding run_Cons
    by (rule Cons.IH [OF lazy_inv_step [OF Cons.prems(1)] step_datas_reading [OF Cons.prems]])
qed

text \<open>
  C7: for the stream of any descriptor and any sequence of events: if the consumer's
  listener ended the stream on receiving the \<open>k\<close>-th item, no item was pushed after
  it and the stream is ended; once the stream is ended, whatever events follow (the
  reply to a call in flight among them) push no item and issue no fetch. The loop pushes
  nothing when the flag is set, and after the loop a set flag returns before the choice
  between a further fetch and ending.
\<close>

theorem consumer_end_stops_stream:
  fixes d :: descriptor and c :: consumer and evs evs' :: "event list" and xs :: "jsval list"
  defines "w \<equiv> run c (runAsStream d) evs"
  shows "(\<forall>k. 0 < k \<and> k \<le> length (datas w) \<and> c (take k (datas w)) \<longrightarrow>
              length (datas w) = k \<and> streamEnded w \<and> readingFired w) \<and>
         (streamEnded w \<and> readingFired w \<longrightarrow>
              datas (run c w evs') = datas w \<and> fetches (run c w evs') = fetches w) \<and>
         (streamEnded w \<longrightarrow> pushLoop c xs w = w) \<and>
         (\<forall>r. \<not> truthy (err r) \<and> streamEnded (pushLoop c (results r) w) \<longrightarrow>
              onResultSet c r w = pushLoop c (results r) w)"
proof -
  have "ended_inv c (runAsStream d)"
    by (auto simp: ended_inv_def runAsStream_def datas_def)
  then have "ended_inv c w"
    unfolding w_def by (intro run_ended_inv) (simp_all add: runAsStream_def)
  moreover have "datas w \<noteq> [] \<longrightarrow> readingFired w"
    unfolding w_def
    by (rule run_datas_reading [OF lazy_inv_init]) (simp add: runAsStream_def datas_def)
  ultimately have 1: "\<forall>k. 0 < k \<and> k \<le> length (datas w) \<and> c (take k (datas w)) \<longrightarrow>
              length (datas w) = k \<and> streamEnded w \<and> readingFired w"
    unfolding ended_inv_def by fastforce
  have 2: "streamEnded w \<and> readingFired w \<longrightarrow>
              datas (run c w evs') = datas w \<and> fetches (run c w evs') = fetches w"
    using run_quiet [of w c evs'] by blast
  have 3: "streamEnded w \<longrightarrow> pushLoop c xs w = w" by simp
  have 4: "\<forall>r. \<not> truthy (err r) \<and> streamEnded (pushLoop c (results r) w) \<longrightarrow>
              onResultSet c r w = pushLoop c (results r) w"
    by (simp add: onResultSet_def Let_def)
  show ?thesis using 1 2 3 4 by blast
qed

theorem consumer_end_stops_stream_witness:
  "datas (run (endAt 1) (runAsStream sampleStream) [Reading, Reply samplePage])
     = [JObject 1] \<and>
   datas (run (endAt 1)
            (run (endAt 1) (runAsStream sampleStream) [Reading, Reply samplePage])
            [Reply samplePage, Reading, ConsumerEnd]) = [JObject 1] \<and>
   fetches (run (endAt 1)
            (run (endAt 1) (runAsStream sampleStream) [Reading, Reply samplePage])
            [Reply samplePage, Reading, ConsumerEnd]) = [JObject 0]"
  using consumer_end_stops_stream
          [where c = "endAt 1" and d = sampleStream
             and evs = "[Reading, Reply samplePage]"
             and evs' = "[Reply samplePage, Reading, ConsumerEnd]" and xs = "[]"]
  by (simp add: run_def runAsStream_def sampleStream_def samplePage_def onResultSet_def
      originalMethod_def push_def stream_end_def act_def fetches_def datas_def Let_def
      quiet_def endAt_def)

lemma onResultSet_counter:
  "counter_inv m w \<Longrightarrow> counter_inv m (onResultSet c r w)"
  using pushLoop_counter [of c "results r" w]
  by (simp add: counter_inv_def onResultSet_def Let_def)

lemma step_counter: "counter_inv m w \<Longrightarrow> counter_inv m (step c w e)"
proof (cases e)
  case (Reply r)
  assume "counter_inv m w"
  then have "counter_inv m (w\<lparr>pending := pending w - 1\<rparr>)"
    by (simp add: counter_inv_def)
  then have "counter_inv m (onResultSet c r (w\<lparr>pending := pending w - 1\<rparr>))"
    by (rule onResultSet_counter)
  then show ?thesis using Reply \<open>counter_inv m w\<close> by (simp add: counter_inv_def)
qed (simp_all add: counter_inv_def)

lemma run_counter: "counter_inv m w \<Longrightarrow> counter_inv m (run c w evs)"
  by (induction evs arbitrary: w) (simp_all add: run_Nil run_Cons step_counter)

lemma runAsStream_counter: "counter_inv (maxResults d) (runAsStream d)"
  by (simp add: counter_inv_def runAsStream_def datas_def)

lemma pushLoop_not_ended:
  "mode w \<noteq> Streaming \<or> (\<forall>xs. \<not> c xs) \<Longrightarrow> \<not> streamEnded w \<Longrightarrow>
   \<not> streamEnded (pushLoop c xs w)"
proof (induction xs arbitrary: w)
  case Nil
  then show ?case by simp
next
  case (Cons x xs)
  have "\<not> streamEnded (pushLoop c xs ((push c x w)\<lparr>resultsToSend := resultsToSend w - 1\<rparr>))"
    using Cons.prems by (intro Cons.IH) auto
  then show ?case using Cons.prems by simp
qed

lemma onResultSet_quiet_consumer:
  assumes "\<forall>xs. \<not> c xs" and "\<not> streamEnded w" and "resultsToSend w < 0"
  shows "streamEnded (onResultSet c r w) \<longleftrightarrow> truthy (err r) \<or> \<not> truthy (nextQuery r)"
proof (cases "truthy (err r)")
  case True
  then show ?thesis by (simp add: onResultSet_def)
next
  case False
  have neg: "resultsToSend (pushLoop c (results r) w) < 0"
    using assms(3) by (rule pushLoop_neg)
  have "\<not> streamEnded (pushLoop c (results r) w)"
    using assms(1,2) by (intro pushLoop_not_ended) simp_all
  then show ?thesis using False neg by (simp add: onResultSet_def Let_def)
qed

text \<open>
  C8, as amended: for a stream with \<open>maxResults\<close> -1 and any sequence of events, the
  counter is still decremented with every item pushed, so it is -1 less the number of
  items and never zero, whatever that number; with a consumer that does not end the
  stream, the reply to the call in flight ends the stream exactly when it has an error
  or no \<open>nextQuery\<close>; and with every event the counter does not grow and a set
  \<open>streamEnded\<close> stays set.
\<close>

theorem unbounded_stream_ends_by_exhaustion:
  fixes d :: descriptor and c :: consumer and evs :: "event list"
  defines "w \<equiv> run c (runAsStream d) evs"
  assumes unbounded: "maxResults d = - 1"
  shows "resultsToSend w = - 1 - int (length (datas w)) \<and>
         resultsToSend w \<noteq> 0 \<and>
         (\<forall>r. (\<forall>xs. \<not> c xs) \<and> \<not> streamEnded w \<and> pending w = 1 \<longrightarrow>
              (streamEnded (step c w (Reply r)) \<longleftrightarrow>
                 truthy (err r) \<or> \<not> truthy (nextQuery r))) \<and>
         (\<forall>e. resultsToSend (step c w e) \<le> resultsToSend w \<and>
              (streamEnded w \<longrightarrow> streamEnded (step c w e)))"
proof -
  have "counter_inv (- 1) w"
    unfolding w_def using run_counter [OF runAsStream_counter, of d c evs] unbounded by simp
  then have 1: "resultsToSend w = - 1 - int (length (datas w))"
    by (simp add: counter_inv_def)
  then have neg: "resultsToSend w < 0" by simp
  have 3: "\<forall>r. (\<forall>xs. \<not> c xs) \<and> \<not> streamEnded w \<and> pending w = 1 \<longrightarrow>
              (streamEnded (step c w (Reply r)) \<longleftrightarrow>
                 truthy (err r) \<or> \<not> truthy (nextQuery r))"
  proof (intro allI impI)
    fix r
    assume a: "(\<forall>xs. \<not> c xs) \<and> \<not> streamEnded w \<and> pending w = 1"
    have m: "mode w = Streaming"
      unfolding w_def run_def by (induction evs rule: rev_induct) (simp_all add: runAsStream_def)
    show "streamEnded (step c w (Reply r)) \<longleftrightarrow> truthy (err r) \<or> \<not> truthy (nextQuery r)"
      using a m neg onResultSet_quiet_consumer [of c "w\<lparr>pending := pending w - 1\<rparr>" r]
      by simp
  qed
  have 4: "\<forall>e. resultsToSend (step c w e) \<le> resultsToSend w \<and>
              (streamEnded w \<longrightarrow> streamEnded (step c w e))"
    by (simp add: step_decreases step_ended)
  show ?thesis using 1 neg 3 4 by simp
qed

text \<open>
  C8 as stated fails: the decrement is not skipped for \<open>maxResults\<close> -1. After a page of
  two items the counter is -3.
\<close>

theorem unbounded_counter_is_decremented:
  "maxResults sampleStream = - 1 \<and>
   resultsToSend (run quiet (runAsStream sampleStream) [Reading, Reply samplePage]) = - 3"
  by (simp add: run_def runAsStream_def sampleStream_def samplePage_def onResultSet_def
      originalMethod_def push_def stream_end_def act_def fetches_def datas_def Let_def
      quiet_def endAt_def)

theorem unbounded_stream_ends_by_exhaustion_witness:
  "resultsToSend (run quiet (runAsStream sampleStream) [Reading, Reply samplePage]) = - 3 \<and>
   \<not> streamEnded (run quiet (runAsStream sampleStream)
        [Reading, Reply samplePage, Reply samplePage]) \<and>
   streamEnded (run quiet (runAsStream sampleStream)
        [Reading, Reply samplePage, Reply (samplePage\<lparr>nextQuery := JNull\<rparr>)])"
  using unbounded_stream_ends_by_exhaustion
          [where c = quiet and d = sampleStream and evs = "[Reading, Reply samplePage]"]
  by (simp add: run_def runAsStream_def sampleStream_def samplePage_def onResultSet_def
      originalMethod_def push_def stream_end_def act_def fetches_def datas_def Let_def
      quiet_def endAt_def)

lemma step_cap_inv:
  assumes "cap_inv w"
  shows "cap_inv (step c w e)"
proof (cases e)
  case Reading
  then show ?thesis
    using assms lazy_inv_step [of w c e] by (auto simp: cap_inv_def)
next
  case ConsumerEnd
  then show ?thesis
    using assms lazy_inv_step [of w c e] by (auto simp: cap_inv_def)
next
  case (Reply r)
  show ?thesis
  proof (cases "pending w = 0")
    case True
    then show ?thesis using Reply assms by simp
  next
    case False
    let ?w = "w\<lparr>pending := pending w - 1\<rparr>"
    have li: "lazy_inv (step c w e)" using assms by (simp add: cap_inv_def lazy_inv_step)
    have p: "pending ?w = 0" and rf: "readingFired w" and nz: "resultsToSend w \<noteq> 0"
      and np: "mode w \<noteq> PassThrough"
      using assms False by (auto simp: cap_inv_def lazy_inv_def)
    have nn: "0 \<le> resultsToSend (pushLoop c (results r) ?w)"
      using assms by (intro pushLoop_nonneg) (simp add: cap_inv_def)
    have st: "step c w e = onResultSet c r ?w"
      using Reply False np by simp
    have "0 \<le> resultsToSend (onResultSet c r ?w)"
      using nn assms by (simp add: onResultSet_def Let_def cap_inv_def)
    moreover have "resultsToSend (onResultSet c r ?w) = 0 \<longrightarrow>
        streamEnded (onResultSet c r ?w) \<and> pending (onResultSet c r ?w) = 0 \<and>
        readingFired (onResultSet c r ?w)"
      using p rf nz by (simp add: onResultSet_def Let_def)
    ultimately show ?thesis using li st by (simp add: cap_inv_def)
  qed
qed

lemma run_cap_inv: "cap_inv w \<Longrightarrow> cap_inv (run c w evs)"
  by (induction evs arbitrary: w) (simp_all add: run_Nil run_Cons step_cap_inv)

lemma runAsStream_cap_inv: "0 < maxResults d \<Longrightarrow> cap_inv (runAsStream d)"
  using lazy_inv_init [of d] by (simp add: cap_inv_def) (simp add: runAsStream_def)

lemma concat_dataOf_Data [simp]: "concat (map (dataOf \<circ> Data) xs) = xs"
  by (induction xs) simp_all

lemma concat_fetchOf_Data [simp]: "concat (map (fetchOf \<circ> Data) xs) = []"
  by (induction xs) simp_all

lemma concat_callOf_Data [simp]: "concat (map (callOf \<circ> Data) xs) = []"
  by (induction xs) simp_all

lemma run_replies_idle: "pending w = 0 \<Longrightarrow> run c w (map Reply ps) = w"
  by (induction ps) (simp_all add: run_Nil run_Cons)

lemma pagesNeeded_pos: "ps \<noteq> [] \<Longrightarrow> 0 < pagesNeeded m ps"
  by (cases ps) simp_all

lemma run_pages:
  assumes "mode w \<noteq> PassThrough" and "mode w \<noteq> Streaming \<or> (\<forall>xs. \<not> c xs)"
    and "\<not> streamEnded w" and "pending w = 1" and "0 < resultsToSend w"
    and "\<forall>p\<in>set pages. \<not> truthy (err p) \<and> (\<forall>x\<in>set (results p). truthy x)"
    and "\<forall>p\<in>set (butlast pages). truthy (nextQuery p)"
    and "resultsToSend w \<le> int (length (concat (map results pages)))"
  shows "datas (run c w (map Reply pages)) =
           datas w @ take (nat (resultsToSend w)) (concat (map results pages)) \<and>
         fetches (run c w (map Reply pages)) =
           fetches w @ take (pagesNeeded (resultsToSend w) pages - 1) (map nextQuery pages) \<and>
         streamEnded (run c w (map Reply pages)) \<and> pending (run c w (map Reply pages)) = 0 \<and>
         resultsToSend (run c w (map Reply pages)) = 0"
  using assms
proof (induction pages arbitrary: w)
  case Nil
  then show ?case by simp
next
  case (Cons p ps)
  let ?k = "resultsToSend w"
  let ?xs = "results p"
  let ?w0 = "w\<lparr>pending := pending w - 1\<rparr>"
  have loop: "pushLoop c ?xs ?w0 =
      ?w0\<lparr>resultsToSend := ?k - int (length (sendable ?k ?xs)),
           log := log ?w0 @ map Data (sendable ?k ?xs)\<rparr>"
    using pushLoop_all [of ?w0 c ?xs] Cons.prems by simp
  have sk: "sendable ?k ?xs = take (nat ?k) ?xs"
    using Cons.prems(5) by (simp add: sendable_def)
  have st: "step c w (Reply p) = onResultSet c p ?w0"
    using Cons.prems by simp
  have ne: "\<not> truthy (err p)" using Cons.prems by simp
  have le: "\<not> streamEnded (pushLoop c ?xs ?w0)"
    unfolding loop using Cons.prems(3) by simp
  have lk: "resultsToSend (pushLoop c ?xs ?w0) = ?k - int (length (take (nat ?k) ?xs))"
    unfolding loop sk by simp
  have ld: "datas (pushLoop c ?xs ?w0) = datas w @ take (nat ?k) ?xs"
    unfolding loop sk by (simp add: datas_def)
  show ?case
  proof (cases "?k \<le> int (length ?xs)")
    case True
    have "resultsToSend (pushLoop c ?xs ?w0) = 0"
      unfolding lk using True Cons.prems(5) by simp
    then have "onResultSet c p ?w0 = stream_end (pushLoop c ?xs ?w0)"
      using ne le by (simp add: onResultSet_def Let_def)
    then have w1: "step c w (Reply p) = stream_end (pushLoop c ?xs ?w0)"
      using st by simp
    have pend: "pending (step c w (Reply p)) = 0"
      unfolding w1 using Cons.prems(4) by simp
    have "run c w (map Reply (p # ps)) = stream_end (pushLoop c ?xs ?w0)"
      using run_replies_idle [OF pend, of c ps] w1 by (simp add: run_Cons)
    then show ?thesis
      using True Cons.prems(4,5) ld lk by simp
  next
    case False
    then have len: "int (length ?xs) < ?k" by simp
    have all: "take (nat ?k) ?xs = ?xs" using len by simp
    have psne: "ps \<noteq> []"
      using Cons.prems(8) len by auto
    then have nq: "truthy (nextQuery p)" using Cons.prems(7) by simp
    let ?w1 = "originalMethod (nextQuery p) (pushLoop c ?xs ?w0)"
    have k0: "resultsToSend (pushLoop c ?xs ?w0) = ?k - int (length ?xs)"
      unfolding lk all by simp
    then have "onResultSet c p ?w0 = ?w1"
      using ne le nq len by (simp add: onResultSet_def Let_def)
    then have w1: "step c w (Reply p) = ?w1"
      using st by simp
    have k1: "resultsToSend ?w1 = ?k - int (length ?xs)"
      using k0 by simp
    have IH: "datas (run c ?w1 (map Reply ps)) =
           datas ?w1 @ take (nat (resultsToSend ?w1)) (concat (map results ps)) \<and>
         fetches (run c ?w1 (map Reply ps)) =
           fetches ?w1 @ take (pagesNeeded (resultsToSend ?w1) ps - 1) (map nextQuery ps) \<and>
         streamEnded (run c ?w1 (map Reply ps)) \<and> pending (run c ?w1 (map Reply ps)) = 0 \<and>
         resultsToSend (run c ?w1 (map Reply ps)) = 0"
    proof (rule Cons.IH)
      show "mode ?w1 \<noteq> PassThrough" using Cons.prems(1) by simp
      show "mode ?w1 \<noteq> Streaming \<or> (\<forall>xs. \<not> c xs)" using Cons.prems(2) by simp
      show "\<not> streamEnded ?w1" using le by simp
      show "pending ?w1 = 1" using Cons.prems(4) by simp
      show "0 < resultsToSend ?w1" using len k1 by simp
      show "\<forall>p\<in>set ps. \<not> truthy (err p) \<and> (\<forall>x\<in>set (results p). truthy x)"
        using Cons.prems(6) by simp
      show "\<forall>p\<in>set (butlast ps). truthy (nextQuery p)"
        using Cons.prems(7) psne by simp
      show "resultsToSend ?w1 \<le> int (length (concat (map results ps)))"
        using Cons.prems(8) k1 by simp
    qed
    have d1: "datas ?w1 = datas w @ ?xs"
      using ld all by simp
    have f1: "fetches ?w1 = fetches w @ [nextQuery p]"
      by simp
    have tk: "nat ?k - length ?xs = nat (?k - int (length ?xs))"
      using len by simp
    have pn: "pagesNeeded ?k (p # ps) - 1 = Suc (pagesNeeded (?k - int (length ?xs)) ps - 1)"
      using False pagesNeeded_pos [OF psne, of "?k - int (length ?xs)"] by simp
    show ?thesis
      using IH unfolding run_Cons list.map w1 [symmetric]
      unfolding w1 k1 d1 f1 pn by (simp add: tk all)
  qed
qed

lemma run_mode [simp]: "mode (run c w evs) = mode w"
  unfolding run_def by (induction evs rule: rev_induct) simp_all

lemma run_query0 [simp]: "query0 (run c w evs) = query0 w"
  unfolding run_def by (induction evs rule: rev_induct) simp_all

lemma last_log_stream_end:
  "mode w \<noteq> Aggregate \<Longrightarrow> last (log (stream_end w)) = EndCall"
  by (simp add: stream_end_def Let_def)

lemma stream_end_logged: "EndCall \<in> set (log (stream_end w))"
  by (simp add: stream_end_def Let_def)

lemma flag_inv_stream_end: "flag_inv (stream_end w)"
  by (simp add: flag_inv_def stream_end_logged)

lemma flag_inv_act: "flag_inv w \<Longrightarrow> flag_inv (act a w)"
  by (simp add: flag_inv_def)

lemma flag_inv_push: "flag_inv w \<Longrightarrow> flag_inv (push c x w)"
  by (simp add: push_def Let_def flag_inv_stream_end flag_inv_act)

lemma flag_inv_counter: "flag_inv w \<Longrightarrow> flag_inv (w\<lparr>resultsToSend := n\<rparr>)"
  by (simp add: flag_inv_def)

lemma flag_inv_pushLoop: "flag_inv w \<Longrightarrow> flag_inv (pushLoop c xs w)"
proof (induction xs arbitrary: w)
  case Nil
  then show ?case by simp
next
  case (Cons x xs)
  have "flag_inv ((push c x w)\<lparr>resultsToSend := resultsToSend (push c x w) - 1\<rparr>)"
    using Cons.prems by (intro flag_inv_counter flag_inv_push)
  then have "flag_inv (pushLoop c xs ((push c x w)\<lparr>resultsToSend := resultsToSend (push c x w) - 1\<rparr>))"
    by (rule Cons.IH)
  then show ?case using Cons.prems by simp
qed

lemma flag_inv_onResultSet: "flag_inv w \<Longrightarrow> flag_inv (onResultSet c r w)"
  using flag_inv_pushLoop [of w c "results r"]
  by (auto simp: onResultSet_def Let_def flag_inv_stream_end)
     (simp add: flag_inv_def)

lemma flag_inv_step: "flag_inv w \<Longrightarrow> flag_inv (step c w e)"
proof (cases e)
  case Reading
  assume "flag_inv w"
  then show ?thesis using Reading by (simp add: flag_inv_def)
next
  case (Reply r)
  assume a: "flag_inv w"
  then have "flag_inv (w\<lparr>pending := pending w - 1\<rparr>)" by (simp add: flag_inv_def)
  then have "flag_inv (onResultSet c r (w\<lparr>pending := pending w - 1\<rparr>))"
    by (rule flag_inv_onResultSet)
  then show ?thesis using Reply a by (auto simp: flag_inv_def)
next
  case ConsumerEnd
  assume "flag_inv w"
  then show ?thesis using ConsumerEnd by (simp add: flag_inv_stream_end)
qed

lemma flag_inv_run: "flag_inv w \<Longrightarrow> flag_inv (run c w evs)"
  by (induction evs arbitrary: w) (simp_all add: run_Nil run_Cons flag_inv_step)

lemma flag_inv_init: "flag_inv (runAsStream d)"
  by (simp add: flag_inv_def runAsStream_def)

lemma stream_end_last:
  "mode w = Streaming \<Longrightarrow> log (stream_end w) \<noteq> [] \<and> last (log (stream_end w)) = EndCall"
  by (simp add: stream_end_def Let_def)

lemma driver_end_onResultSet:
  assumes "mode w = Streaming" and "\<not> streamEnded w" and "pending w = 0"
    and "readingFired w"
  shows "streamEnded (onResultSet quiet r w) \<longrightarrow>
           log (onResultSet quiet r w) \<noteq> [] \<and> last (log (onResultSet quiet r w)) = EndCall \<and>
           pending (onResultSet quiet r w) = 0 \<and> readingFired (onResultSet quiet r w)"
proof -
  have ne: "\<not> streamEnded (pushLoop quiet (results r) w)"
    using assms(2) by (intro pushLoop_not_ended) (simp add: quiet_def)
  show ?thesis
    using assms ne by (simp add: onResultSet_def Let_def stream_end_last)
qed

lemma driver_end_step:
  assumes "driver_end_inv w" and "e \<noteq> ConsumerEnd"
  shows "driver_end_inv (step quiet w e)"
proof -
  have li: "lazy_inv (step quiet w e)" and m: "mode w = Streaming"
    using assms(1) by (simp_all add: driver_end_inv_def lazy_inv_step)
  have "streamEnded (step quiet w e) \<longrightarrow>
          log (step quiet w e) \<noteq> [] \<and> last (log (step quiet w e)) = EndCall \<and>
          pending (step quiet w e) = 0 \<and> readingFired (step quiet w e)"
  proof (cases e)
    case Reading
    then show ?thesis using assms(1) by (auto simp: driver_end_inv_def)
  next
    case (Reply r)
    show ?thesis
    proof (cases "pending w = 0")
      case True
      then show ?thesis using Reply assms(1) by (simp add: driver_end_inv_def)
    next
      case False
      then have p: "pending w = 1" and ne: "\<not> streamEnded w" and rf: "readingFired w"
        using assms(1) by (auto simp: driver_end_inv_def lazy_inv_def)
      have st: "step quiet w e = onResultSet quiet r (w\<lparr>pending := pending w - 1\<rparr>)"
        using Reply False m by simp
      show ?thesis
        unfolding st using m ne p rf by (intro driver_end_onResultSet) simp_all
    qed
  next
    case ConsumerEnd
    then show ?thesis using assms(2) by simp
  qed
  then show ?thesis using li m by (simp add: driver_end_inv_def)
qed

lemma driver_end_run:
  "driver_end_inv w \<Longrightarrow> ConsumerEnd \<notin> set evs \<Longrightarrow> driver_end_inv (run quiet w evs)"
proof (induction evs arbitrary: w)
  case Nil
  then show ?case by (simp add: run_Nil)
next
  case (Cons e evs)
  have "driver_end_inv (step quiet w e)"
    using Cons.prems by (intro driver_end_step) auto
  then show ?case using Cons by (simp add: run_Cons)
qed

lemma driver_end_init: "driver_end_inv (runAsStream d)"
  using lazy_inv_init [of d] by (simp add: driver_end_inv_def) (simp add: runAsStream_def)

text \<open>
  C3, as amended: for a stream with \<open>maxResults\<close> \<open>m > 0\<close>, any consumer and any sequence
  of events, never more than \<open>m\<close> items are pushed, and once \<open>m\<close> are pushed the stream's
  own \<open>end\<close> has been called, the flag is set and no call is in flight, so that the reply
  that supplied the \<open>m\<close>-th item issued no fetch, and no later event pushes an item or
  issues a fetch. When the consumer does not end the stream and the pages arrive without
  error, with truthy items, a \<open>nextQuery\<close> on every page but the last (which may have
  one too) and at least \<open>m\<close> items in all, the stream pushes exactly the first \<open>m\<close>
  items, has issued just the fetches up to the page that supplies the \<open>m\<close>-th, and its
  last action is the call of its own \<open>end\<close>.
\<close>

theorem maxResults_caps_stream:
  fixes d :: descriptor and c :: consumer and evs evs' :: "event list" and pages :: "reply list"
  defines "m \<equiv> maxResults d"
  defines "w \<equiv> run c (runAsStream d) evs"
  defines "w' \<equiv> run quiet (runAsStream d) (Reading # map Reply pages)"
  assumes bounded: "0 < maxResults d"
  shows "int (length (datas w)) \<le> m \<and>
         (int (length (datas w)) = m \<longrightarrow>
            EndCall \<in> set (log w) \<and> streamEnded w \<and> pending w = 0 \<and>
            datas (run c w evs') = datas w \<and> fetches (run c w evs') = fetches w) \<and>
         ((\<forall>p\<in>set pages. \<not> truthy (err p) \<and> (\<forall>x\<in>set (results p). truthy x)) \<and>
          (\<forall>p\<in>set (butlast pages). truthy (nextQuery p)) \<and>
          m \<le> int (length (concat (map results pages))) \<longrightarrow>
            datas w' = take (nat m) (concat (map results pages)) \<and>
            fetches w' = take (pagesNeeded m pages) (query d # map nextQuery pages) \<and>
            last (log w') = EndCall \<and> streamEnded w' \<and> pending w' = 0)"
proof -
  have ci: "cap_inv w"
    unfolding w_def by (intro run_cap_inv runAsStream_cap_inv bounded)
  have fi: "flag_inv w"
    unfolding w_def by (intro flag_inv_run flag_inv_init)
  have "counter_inv m w"
    unfolding w_def m_def by (intro run_counter runAsStream_counter)
  then have cnt: "resultsToSend w = m - int (length (datas w))"
    by (simp add: counter_inv_def)
  have 1: "int (length (datas w)) \<le> m"
    using ci cnt by (simp add: cap_inv_def)
  have 2: "int (length (datas w)) = m \<longrightarrow>
            EndCall \<in> set (log w) \<and> streamEnded w \<and> pending w = 0 \<and>
            datas (run c w evs') = datas w \<and> fetches (run c w evs') = fetches w"
  proof
    assume "int (length (datas w)) = m"
    then have "resultsToSend w = 0" using cnt by simp
    then have "streamEnded w \<and> pending w = 0 \<and> readingFired w"
      using ci by (simp add: cap_inv_def)
    then show "EndCall \<in> set (log w) \<and> streamEnded w \<and> pending w = 0 \<and>
            datas (run c w evs') = datas w \<and> fetches (run c w evs') = fetches w"
      using run_quiet [of w c evs'] fi by (simp add: flag_inv_def)
  qed
  have 3: "(\<forall>p\<in>set pages. \<not> truthy (err p) \<and> (\<forall>x\<in>set (results p). truthy x)) \<and>
          (\<forall>p\<in>set (butlast pages). truthy (nextQuery p)) \<and>
          m \<le> int (length (concat (map results pages))) \<longrightarrow>
            datas w' = take (nat m) (concat (map results pages)) \<and>
            fetches w' = take (pagesNeeded m pages) (query d # map nextQuery pages) \<and>
            last (log w') = EndCall \<and> streamEnded w' \<and> pending w' = 0"
  proof
    assume a: "(\<forall>p\<in>set pages. \<not> truthy (err p) \<and> (\<forall>x\<in>set (results p). truthy x)) \<and>
          (\<forall>p\<in>set (butlast pages). truthy (nextQuery p)) \<and>
          m \<le> int (length (concat (map results pages)))"
    let ?w0 = "step quiet (runAsStream d) Reading"
    have w0: "?w0 = \<lparr>mode = Streaming, query0 = query d, resultsToSend = m,
                     streamEnded = False, readingFired = True, pending = 1,
                     log = [Fetch (query d)]\<rparr>"
      by (simp add: runAsStream_def originalMethod_def act_def m_def)
    have ne: "pages \<noteq> []" using a bounded m_def by auto
    have r: "datas (run quiet ?w0 (map Reply pages)) =
           datas ?w0 @ take (nat (resultsToSend ?w0)) (concat (map results pages)) \<and>
         fetches (run quiet ?w0 (map Reply pages)) =
           fetches ?w0 @ take (pagesNeeded (resultsToSend ?w0) pages - 1) (map nextQuery pages) \<and>
         streamEnded (run quiet ?w0 (map Reply pages)) \<and>
         pending (run quiet ?w0 (map Reply pages)) = 0 \<and>
         resultsToSend (run quiet ?w0 (map Reply pages)) = 0"
      using a bounded unfolding w0
      by (intro run_pages) (simp_all add: quiet_def m_def)
    have "ConsumerEnd \<notin> set (Reading # map Reply pages)" by auto
    then have "driver_end_inv w'"
      unfolding w'_def by (intro driver_end_run driver_end_init)
    moreover have se: "streamEnded w'"
      using r unfolding w'_def run_Cons by simp
    ultimately have lst: "last (log w') = EndCall"
      by (simp add: driver_end_inv_def)
    have pn: "pagesNeeded m pages = Suc (pagesNeeded m pages - 1)"
      using pagesNeeded_pos [OF ne, of m] by simp
    have "take (pagesNeeded m pages) (query d # map nextQuery pages) =
            query d # take (pagesNeeded m pages - 1) (map nextQuery pages)"
      by (subst pn) simp
    then have "datas w' = take (nat m) (concat (map results pages)) \<and>
            fetches w' = take (pagesNeeded m pages) (query d # map nextQuery pages) \<and>
            streamEnded w' \<and> pending w' = 0"
      using r unfolding w'_def run_Cons w0 by (simp add: datas_def fetches_def)
    then show "datas w' = take (nat m) (concat (map results pages)) \<and>
            fetches w' = take (pagesNeeded m pages) (query d # map nextQuery pages) \<and>
            last (log w') = EndCall \<and> streamEnded w' \<and> pending w' = 0"
      using lst by simp
  qed
  show ?thesis using 1 2 3 by blast
qed

text \<open>
  C3 as stated fails: with \<open>maxResults\<close> 3 and six items on three pages, a consumer that
  ends the stream at the first item receives one item, not three.
\<close>

theorem consumer_end_undercuts_cap:
  "maxResults sampleCapped = 3 \<and>
   length (results samplePage @ results samplePage @ results sampleLastPage) = 6 \<and>
   datas (run (endAt 1) (runAsStream sampleCapped)
            [Reading, Reply samplePage, Reply samplePage, Reply sampleLastPage])
     = [JObject 1]"
  by (simp add: sampleCapped_def parseArguments_def parseQuery_def parseCallback_def
      parseMaxResults_def parseAutoPaginate_def firstArgument_def lastArgument_def
      props_of_def lookup_def run_def runAsStream_def sampleLastPage_def samplePage_def
      onResultSet_def originalMethod_def push_def stream_end_def act_def fetches_def datas_def
      Let_def quiet_def endAt_def)

theorem maxResults_caps_stream_witness:
  "log (run quiet (runAsStream sampleCapped)
            [Reading, Reply samplePage, Reply samplePage, Reply sampleLastPage])
     = [Fetch (JObject 0), Data (JObject 1), Data (JObject 2), Fetch (JObject 3),
        Data (JObject 1), EndCall] \<and>
   fetches (run quiet (run quiet (runAsStream sampleCapped)
            [Reading, Reply samplePage, Reply samplePage]) [Reading, Reply samplePage])
     = [JObject 0, JObject 3]"
  using maxResults_caps_stream
          [where d = sampleCapped and c = quiet and evs = "[Reading, Reply samplePage, Reply samplePage]"
             and evs' = "[Reading, Reply samplePage]"
             and pages = "[samplePage, samplePage, sampleLastPage]"]
  by (simp add: sampleCapped_def parseArguments_def parseQuery_def parseCallback_def
      parseMaxResults_def parseAutoPaginate_def firstArgument_def lastArgument_def
      props_of_def lookup_def run_def runAsStream_def sampleLastPage_def samplePage_def
      onResultSet_def originalMethod_def push_def stream_end_def act_def fetches_def datas_def
      Let_def quiet_def)

lemma sendable_all:
  "k < 0 \<or> int (length xs) \<le> k \<Longrightarrow> sendable k xs = xs"
  by (auto simp: sendable_def)

lemma single_page:
  assumes "mode w \<noteq> PassThrough" and "mode w \<noteq> Streaming \<or> (\<forall>xs. \<not> c xs)"
    and "\<not> streamEnded w" and "0 < pending w"
    and "\<not> truthy (err r)" and "\<not> truthy (nextQuery r)"
    and "\<forall>x\<in>set (results r). truthy x"
    and "resultsToSend w < 0 \<or> int (length (results r)) \<le> resultsToSend w"
  shows "step c w (Reply r) =
           stream_end (w\<lparr>pending := pending w - 1,
                         resultsToSend := resultsToSend w - int (length (results r)),
                         log := log w @ map Data (results r)\<rparr>)"
proof -
  let ?w0 = "w\<lparr>pending := pending w - 1\<rparr>"
  have loop: "pushLoop c (results r) ?w0 =
      ?w0\<lparr>resultsToSend := resultsToSend w - int (length (results r)),
           log := log ?w0 @ map Data (results r)\<rparr>"
    using pushLoop_all [of ?w0 c "results r"] assms sendable_all [of "resultsToSend w" "results r"]
    by simp
  have le: "\<not> streamEnded (pushLoop c (results r) ?w0)"
    unfolding loop using assms(3) by simp
  have "onResultSet c r ?w0 = stream_end (pushLoop c (results r) ?w0)"
    using assms(5,6) le by (simp add: onResultSet_def Let_def)
  moreover have "step c w (Reply r) = onResultSet c r ?w0"
    using assms(1,4) by simp
  ultimately show ?thesis unfolding loop by simp
qed

text \<open>
  C2, as amended: when the first reply has no error and no \<open>nextQuery\<close>, its items are
  truthy, \<open>maxResults\<close> is negative or at least the number of items, and the consumer
  does not end the stream, the stream issues the one fetch, pushes exactly the items of
  the page in their order and then ends; in aggregate mode, where the items are objects,
  the callback is then called once, with \<open>null\<close> and that same sequence.
\<close>

theorem single_page_emitted_in_order:
  fixes d :: descriptor and r :: reply and c :: consumer
  assumes "\<not> truthy (err r)" and "\<not> truthy (nextQuery r)"
    and "\<forall>x\<in>set (results r). truthy x"
    and "maxResults d < 0 \<or> int (length (results r)) \<le> maxResults d"
  shows "log (run quiet (runAsStream d) [Reading, Reply r]) =
           Fetch (query d) # map Data (results r) @ [EndCall] \<and>
         (truthy (callback d) \<and> autoPaginate d \<and>
          (\<forall>x\<in>set (results r). util_is x ''object'') \<longrightarrow>
            log (run c (router d) [Reply r]) =
              Fetch (query d) # map Data (results r) @
                [EndCall, Callback (CbResults (results r))])"
proof
  let ?w0 = "\<lparr>mode = Streaming, query0 = query d, resultsToSend = maxResults d,
              streamEnded = False, readingFired = True, pending = 1,
              log = [Fetch (query d)]\<rparr>"
  have w0: "step quiet (runAsStream d) Reading = ?w0"
    by (simp add: runAsStream_def originalMethod_def act_def)
  have "step quiet ?w0 (Reply r) =
          stream_end (?w0\<lparr>pending := pending ?w0 - 1,
                         resultsToSend := resultsToSend ?w0 - int (length (results r)),
                         log := log ?w0 @ map Data (results r)\<rparr>)"
    using assms by (intro single_page) (simp_all add: quiet_def)
  then have "run quiet (runAsStream d) [Reading, Reply r] =
          stream_end (?w0\<lparr>pending := pending ?w0 - 1,
                         resultsToSend := resultsToSend ?w0 - int (length (results r)),
                         log := log ?w0 @ map Data (results r)\<rparr>)"
    unfolding run_Cons run_Nil w0 by simp
  then show "log (run quiet (runAsStream d) [Reading, Reply r]) =
           Fetch (query d) # map Data (results r) @ [EndCall]"
    by (simp add: stream_end_def act_def Let_def)
next
  show "truthy (callback d) \<and> autoPaginate d \<and>
          (\<forall>x\<in>set (results r). util_is x ''object'') \<longrightarrow>
            log (run c (router d) [Reply r]) =
              Fetch (query d) # map Data (results r) @
                [EndCall, Callback (CbResults (results r))]"
  proof
    assume a: "truthy (callback d) \<and> autoPaginate d \<and>
          (\<forall>x\<in>set (results r). util_is x ''object'')"
    let ?w0 = "\<lparr>mode = Aggregate, query0 = query d, resultsToSend = maxResults d,
                streamEnded = False, readingFired = True, pending = 1,
                log = [Fetch (query d)]\<rparr>"
    have w0: "router d = ?w0"
      using a by (simp add: router_def runAsStream_def originalMethod_def act_def)
    have "step c ?w0 (Reply r) =
          stream_end (?w0\<lparr>pending := pending ?w0 - 1,
                         resultsToSend := resultsToSend ?w0 - int (length (results r)),
                         log := log ?w0 @ map Data (results r)\<rparr>)"
      using assms by (intro single_page) simp_all
    then have "run c (router d) [Reply r] =
          stream_end (?w0\<lparr>pending := pending ?w0 - 1,
                         resultsToSend := resultsToSend ?w0 - int (length (results r)),
                         log := log ?w0 @ map Data (results r)\<rparr>)"
      unfolding run_Cons run_Nil w0 by simp
    then show "log (run c (router d) [Reply r]) =
              Fetch (query d) # map Data (results r) @
                [EndCall, Callback (CbResults (results r))]"
      by (auto simp: stream_end_def act_def Let_def datas_def)
  qed
qed

text \<open>
  C2 as stated fails: called with \<open>({maxResults: 1})\<close> and no callback, a first page
  of two items without error and without \<open>nextQuery\<close> gives a stream of one item.
\<close>

theorem capped_single_page_is_cut:
  "\<not> truthy (err sampleLastPage) \<and> \<not> truthy (nextQuery sampleLastPage) \<and>
   results sampleLastPage = [JObject 5, JObject 6] \<and>
   datas (run quiet (runAsStream sampleOne) [Reading, Reply sampleLastPage]) = [JObject 5]"
  by (simp add: sampleOne_def parseArguments_def parseQuery_def parseCallback_def
      parseMaxResults_def parseAutoPaginate_def firstArgument_def lastArgument_def
      props_of_def lookup_def run_def runAsStream_def sampleLastPage_def
      onResultSet_def originalMethod_def push_def stream_end_def act_def fetches_def datas_def
      Let_def quiet_def)

theorem single_page_emitted_in_order_witness:
  "log (run quiet (runAsStream sampleStream) [Reading, Reply sampleLastPage]) =
     [Fetch (JObject 0), Data (JObject 5), Data (JObject 6), EndCall] \<and>
   log (run quiet (router sampleAggregate) [Reply sampleLastPage]) =
     [Fetch (JObject 0), Data (JObject 5), Data (JObject 6), EndCall,
      Callback (CbResults [JObject 5, JObject 6])]"
  using single_page_emitted_in_order [where d = sampleStream and r = sampleLastPage]
        single_page_emitted_in_order
          [where d = sampleAggregate and r = sampleLastPage and c = quiet]
  by (simp add: sampleStream_def sampleAggregate_def sampleLastPage_def parseArguments_def
      parseQuery_def parseCallback_def parseMaxResults_def parseAutoPaginate_def
      firstArgument_def lastArgument_def props_of_def lookup_def)

text \<open>
  C1 fails on the code: in aggregate mode, a first page with a \<open>nextQuery\<close> followed by
  a fetch error calls the user's callback twice, first with the error and then, the
  driver having ended the stream after the error event, with \<open>null\<close> and the items
  collected before the failure.
\<close>

theorem aggregate_error_calls_back_twice:
  "calls (run quiet (router sampleAggregate) [Reply samplePage, Reply sampleFailure]) =
     [CbError (JString ''backend error''), CbResults [JObject 1, JObject 2]]"
  by (simp add: sampleAggregate_def parseArguments_def parseQuery_def parseCallback_def
      parseMaxResults_def parseAutoPaginate_def firstArgument_def lastArgument_def
      props_of_def lookup_def run_def router_def runAsStream_def samplePage_def
      sampleFailure_def onResultSet_def originalMethod_def push_def stream_end_def
      emit_error_def act_def fetches_def datas_def calls_def Let_def quiet_def)

lemma lookup_update: "lookup (AList.update k v ps) k' = (if k' = k then v else lookup ps k')"
  by (simp add: lookup_def update_conv')

lemma lookup_Nil [simp]: "lookup [] k = JUndefined"
  by (simp add: lookup_def)

lemma lookup_absent: "k \<notin> fst ` set ps \<Longrightarrow> lookup ps k = JUndefined"
  using map_of_eq_None_iff [of ps k] by (simp add: lookup_def)

lemma lookup_copy_keys:
  "lookup (foldl (\<lambda>t k. if lookup source k = JUndefined then t
                         else AList.update k (lookup source k) t) target ks) k =
     (if k \<in> set ks \<and> lookup source k \<noteq> JUndefined then lookup source k else lookup target k)"
  by (induction ks rule: rev_induct) (auto simp: lookup_update)

lemma lookup_copyInto:
  "lookup (copyInto target source) k =
     (if lookup source k \<noteq> JUndefined then lookup source k else lookup target k)"
  using lookup_absent [of k source]
  by (auto simp: copyInto_def ownKeys_def lookup_copy_keys)

lemma props_of_append: "a < length h \<Longrightarrow> props_of (h @ hs) a = props_of h a"
  by (simp add: props_of_def nth_append)

lemma props_of_new: "props_of (h @ [ps]) (length h) = ps"
  by (simp add: props_of_def)

lemma getProp_ownProps: "getProp h v k = lookup (ownProps h v) k"
  by (cases v) simp_all

lemma extend_token:
  assumes "t \<noteq> JUndefined"
  shows "snd (extendObject h [ownProps h q, [(''pageToken'', t)]]) = JObject (length h)"
    and "length (fst (extendObject h [ownProps h q, [(''pageToken'', t)]])) = Suc (length h)"
    and "getProp (fst (extendObject h [ownProps h q, [(''pageToken'', t)]])) (JObject (length h)) k =
           (if k = ''pageToken'' then t else getProp h q k)"
    and "a < length h \<Longrightarrow>
           props_of (fst (extendObject h [ownProps h q, [(''pageToken'', t)]])) a = props_of h a"
proof -
  have lk: "\<And>k'. lookup [(''pageToken'', t)] k' = (if k' = ''pageToken'' then t else JUndefined)"
    by (simp add: lookup_def)
  show "snd (extendObject h [ownProps h q, [(''pageToken'', t)]]) = JObject (length h)"
    by (simp add: extendObject_def newObject_def)
  show "length (fst (extendObject h [ownProps h q, [(''pageToken'', t)]])) = Suc (length h)"
    by (simp add: extendObject_def newObject_def)
  show "getProp (fst (extendObject h [ownProps h q, [(''pageToken'', t)]])) (JObject (length h)) k =
           (if k = ''pageToken'' then t else getProp h q k)"
    using assms
    by (simp add: extendObject_def newObject_def props_of_new lookup_copyInto lk getProp_ownProps)
  show "a < length h \<Longrightarrow>
           props_of (fst (extendObject h [ownProps h q, [(''pageToken'', t)]])) a = props_of h a"
    by (simp add: extendObject_def newObject_def props_of_append)
qed

lemma defaultArgs_object:
  "defaultArgs h (JObject a) cb = (h, JObject a, cb)"
  by (simp add: defaultArgs_def)

lemma defaultArgs_frame:
  "a < length h \<Longrightarrow> props_of (fst (defaultArgs h q cb)) a = props_of h a"
  by (simp add: defaultArgs_def newObject_def props_of_append Let_def split: prod.splits)

lemma getDatasets_object:
  "getDatasets h (JObject a) cb =
     (h, \<lparr>reqMethod = ''GET'', reqPath = ''/datasets'', reqQuery = JObject a, reqBody = JNull\<rparr>,
      cb)"
  by (simp add: getDatasets_def defaultArgs_object)

lemma getJobs_object:
  "getJobs h (JObject a) cb =
     (h, \<lparr>reqMethod = ''GET'', reqPath = ''/jobs'', reqQuery = JObject a, reqBody = JNull\<rparr>,
      cb)"
  by (simp add: getJobs_def defaultArgs_object)

lemma getJobs_response_eq: "getJobs_response = getDatasets_response"
  by (intro ext) (simp add: getJobs_response_def getDatasets_response_def)

lemma truthy_defined: "truthy t \<Longrightarrow> t \<noteq> JUndefined"
  by auto

lemma getDatasets_response_falsy:
  "\<not> truthy e \<Longrightarrow>
   getDatasets_response h q items e resp = getDatasets_response h q items JNull resp"
  by (simp add: getDatasets_response_def)

lemma getDatasets_response_nextQuery:
  fixes h :: store and q resp :: jsval and items :: "jsval list"
  defines "t \<equiv> getProp h resp ''nextPageToken''"
  defines "h' \<equiv> fst (getDatasets_response h q items JNull resp)"
  defines "nq \<equiv> argNextQuery (snd (getDatasets_response h q items JNull resp))"
  shows "(nq = JNull \<longleftrightarrow> \<not> truthy t) \<and>
         (t = JUndefined \<longrightarrow> nq = JNull \<and> h' = h) \<and>
         (truthy t \<longrightarrow> nq = JObject (length h) \<and> length h' = Suc (length h) \<and>
            (\<forall>k. getProp h' nq k = (if k = ''pageToken'' then t else getProp h q k))) \<and>
         (\<forall>a<length h. props_of h' a = props_of h a)"
proof (cases "truthy t")
  case True
  then have "t \<noteq> JUndefined" by auto
  note e = extend_token [OF this, where h = h and q = q]
  have r: "getDatasets_response h q items JNull resp =
             (fst (extendObject h [ownProps h q, [(''pageToken'', t)]]),
              \<lparr>argErr = JNull, argItems = Some items,
                argNextQuery = snd (extendObject h [ownProps h q, [(''pageToken'', t)]]),
                argResp = resp\<rparr>)"
    using True by (simp add: getDatasets_response_def t_def split: prod.splits)
  show ?thesis
    unfolding h'_def nq_def r using True \<open>t \<noteq> JUndefined\<close> e by simp
next
  case False
  then have "getDatasets_response h q items JNull resp =
             (h, \<lparr>argErr = JNull, argItems = Some items, argNextQuery = JNull, argResp = resp\<rparr>)"
    by (simp add: getDatasets_response_def t_def)
  then show ?thesis
    unfolding h'_def nq_def using False by auto
qed

text \<open>
  C9: for a response of \<open>getDatasets\<close> or \<open>getJobs\<close> without error, the \<open>nextQuery\<close>
  handed to the callback is \<open>null\<close> exactly when \<open>resp.nextPageToken\<close> is falsy, and it
  is when the field is absent; otherwise it is an object at a new address whose
  properties read as those of the query, except \<open>pageToken\<close>, which is the response's
  token. Every object allocated before, the caller's query among them, keeps its
  properties.
\<close>

theorem nextQuery_is_fresh_copy:
  fixes h :: store and q resp e :: jsval and items :: "jsval list"
    and f :: "store \<Rightarrow> jsval \<Rightarrow> jsval list \<Rightarrow> jsval \<Rightarrow> jsval \<Rightarrow> store \<times> invocation"
  defines "t \<equiv> getProp h resp ''nextPageToken''"
  defines "h' \<equiv> fst (f h q items e resp)"
  defines "nq \<equiv> argNextQuery (snd (f h q items e resp))"
  assumes which: "f = getDatasets_response \<or> f = getJobs_response"
    and success: "\<not> truthy e"
  shows "(nq = JNull \<longleftrightarrow> \<not> truthy t) \<and>
         (t = JUndefined \<longrightarrow> nq = JNull \<and> h' = h) \<and>
         (truthy t \<longrightarrow> nq = JObject (length h) \<and> length h' = Suc (length h) \<and>
            (\<forall>k. getProp h' nq k = (if k = ''pageToken'' then t else getProp h q k))) \<and>
         (\<forall>a<length h. props_of h' a = props_of h a)"
proof -
  have eq: "f h q items e resp = getDatasets_response h q items JNull resp"
    using which success getDatasets_response_falsy [of e h q items resp]
    by (auto simp: getJobs_response_eq)
  show ?thesis
    unfolding h'_def nq_def t_def eq by (rule getDatasets_response_nextQuery)
qed

theorem nextQuery_is_fresh_copy_witness:
  "argNextQuery (snd (getDatasets_response sampleStore (JObject 0) [] JNull (JObject 1)))
     = JObject 3 \<and>
   getProp (fst (getJobs_response sampleStore (JObject 0) [] JNull (JObject 1))) (JObject 3)
     ''pageToken'' = JString ''second'' \<and>
   getProp (fst (getJobs_response sampleStore (JObject 0) [] JNull (JObject 1))) (JObject 3)
     ''maxResults'' = JNumber 5 \<and>
   props_of (fst (getDatasets_response sampleStore (JObject 0) [] JNull (JObject 1))) 0
     = [(''maxResults'', JNumber 5), (''pageToken'', JString ''first'')] \<and>
   argNextQuery (snd (getDatasets_response sampleStore (JObject 0) [] JNull (JObject 2)))
     = JNull"
  using nextQuery_is_fresh_copy
          [where f = getDatasets_response and h = sampleStore and q = "JObject 0"
             and resp = "JObject 1" and e = JNull and items = "[]"]
        nextQuery_is_fresh_copy
          [where f = getJobs_response and h = sampleStore and q = "JObject 0"
             and resp = "JObject 1" and e = JNull and items = "[]"]
        nextQuery_is_fresh_copy
          [where f = getDatasets_response and h = sampleStore and q = "JObject 0"
             and resp = "JObject 2" and e = JNull and items = "[]"]
  by (simp add: sampleStore_def props_of_def lookup_def getDatasets_response_def
      getJobs_response_def extendObject_def copyInto_def ownKeys_def newObject_def nth_append)

lemma props_of_setProp:
  "a < length h \<Longrightarrow>
   props_of (setProp h a k v) b =
     (if b = a then AList.update k v (props_of h a) else props_of h b)"
  by (simp add: setProp_def props_of_def)

text \<open>
  C10: for an options object of the caller, \<open>getQueryResults\<close> calls \<open>bigQuery.query\<close>
  with that same object and the callback, after setting its \<open>job\<close> property to the
  \<open>Job\<close> in place: no object is allocated, the object under the caller's address now
  reads \<open>this\<close> at \<open>job\<close> and as before elsewhere, and no other object changes.
\<close>

theorem getQueryResults_sets_job_in_place:
  fixes h :: store and a :: addr and this cb :: jsval
  defines "h' \<equiv> setProp h a ''job'' this"
  assumes "a < length h"
  shows "getQueryResults h this (JObject a) cb = Inr (h', JObject a, cb) \<and>
         length h' = length h \<and>
         (\<forall>k. getProp h' (JObject a) k =
               (if k = ''job'' then this else getProp h (JObject a) k)) \<and>
         (\<forall>b. b \<noteq> a \<longrightarrow> props_of h' b = props_of h b)"
  using assms
  by (simp add: getQueryResults_def defaultArgs_object props_of_setProp lookup_update)
     (simp add: setProp_def)

theorem getQueryResults_sets_job_in_place_witness:
  "getQueryResults sampleStore (JObject 2) (JObject 0) (JFunction 1) =
     Inr ([[(''maxResults'', JNumber 5), (''pageToken'', JString ''first''),
            (''job'', JObject 2)],
           [(''nextPageToken'', JString ''second'')],
           []], JObject 0, JFunction 1)"
  using getQueryResults_sets_job_in_place
          [where h = sampleStore and a = 0 and this = "JObject 2" and cb = "JFunction 1"]
  by (simp add: sampleStore_def setProp_def props_of_def)

end
